theory Spec2Isabelle
  imports Main
begin

section \<open>Data model of build.go\<close>

text \<open>
  The structs of the package. A Go slice that is compared with \<open>nil\<close> (\<open>FileFilter\<close>) is an
  optional list; an \<open>error\<close> is an optional message, \<open>None\<close> being \<open>nil\<close>.
\<close>

type_synonym error = "string option"

record CompileConfig =
  Development :: bool
  Quick :: bool
  Version :: string
  GOOS :: string
  GOARCH :: string

record WatchList =
  Paths :: "string list"
  FileFilter :: "string list option"

record sourceTreeStatus =
  TreeHash :: string
  Dirty :: bool
  Broken :: bool

text \<open>The zero value that \<open>make([]sourceTreeStatus, n)\<close> fills the slice with.\<close>

definition zeroStatus :: sourceTreeStatus where
  "zeroStatus = \<lparr>TreeHash = [], Dirty = False, Broken = False\<rparr>"

section \<open>The poll tick of Build.Run\<close>

text \<open>
  The compile callbacks and the tree hasher are effects of the environment. One iteration of
  the watch loop calls \<open>sourceTreeHash\<close> once per step and each callback at most once, so what
  the environment did during an iteration is a pair of functions of the step index:
  \<open>seenHash i\<close> is the digest that \<open>sourceTreeHash(b.Steps[i].WatchList)\<close> returned, and
  \<open>compileErr i\<close> is the error that \<open>b.Steps[i].Compile(ctx, conf)\<close> returns if it is called.
\<close>

record tick_env =
  seenHash :: "nat \<Rightarrow> string"
  compileErr :: "nat \<Rightarrow> error"

text \<open>Lines 125-133: what the cascade does to one later step \<open>j\<close>.\<close>

definition invalidate :: "bool \<Rightarrow> sourceTreeStatus \<Rightarrow> sourceTreeStatus" where
  "invalidate quick s =
     (if Broken s then s\<lparr>Dirty := True, Broken := False\<rparr>
      else if \<not> quick then s\<lparr>Dirty := True\<rparr>
      else s)"

text \<open>Lines 124-134: \<open>for j := i + 1; j < len(status); j++\<close>.\<close>

definition cascade :: "bool \<Rightarrow> nat \<Rightarrow> sourceTreeStatus list \<Rightarrow> sourceTreeStatus list" where
  "cascade quick i st = fold (\<lambda>j s. s[j := invalidate quick (s ! j)]) [i + 1..<length st] st"

text \<open>Lines 119-136: the body of the hashing loop for step \<open>i\<close>, \<open>th\<close> being the fresh digest.\<close>

definition detect :: "bool \<Rightarrow> string \<Rightarrow> nat \<Rightarrow> sourceTreeStatus list \<Rightarrow> sourceTreeStatus list" where
  "detect quick th i st =
     (if TreeHash (st ! i) \<noteq> th then
        let st1 = st[i := (st ! i)\<lparr>Dirty := True, Broken := False\<rparr>];
            st2 = cascade quick i st1
        in st2[i := (st2 ! i)\<lparr>TreeHash := th\<rparr>]
      else st)"

text \<open>Lines 118-137: \<open>for i, st := range b.Steps\<close>, with \<open>n = len(b.Steps)\<close>.\<close>

definition hash_phase ::
  "bool \<Rightarrow> nat \<Rightarrow> (nat \<Rightarrow> string) \<Rightarrow> sourceTreeStatus list \<Rightarrow> sourceTreeStatus list" where
  "hash_phase quick n th st = fold (\<lambda>i s. detect quick (th i) i s) [0..<n] st"

text \<open>
  The state of the recompilation loop (lines 139-156): the status slice, the steps whose
  callback has been called so far (in call order) and the local \<open>shouldRestart\<close>.
\<close>

record tick_result =
  statuses :: "sourceTreeStatus list"
  invoked :: "nat list"
  shouldRestart :: bool

text \<open>
  Lines 140-156. The list is the indices still to visit. \<open>i == len(b.Steps)-1\<close> is
  \<open>Suc i = n\<close>; a callback error is the \<open>break\<close>.
\<close>

fun recompile :: "nat \<Rightarrow> (nat \<Rightarrow> error) \<Rightarrow> nat list \<Rightarrow> tick_result \<Rightarrow> tick_result" where
  "recompile n cerr [] r = r"
| "recompile n cerr (i # is) r =
     (if \<not> Dirty (statuses r ! i) then recompile n cerr is r
      else
        let r1 = r\<lparr>shouldRestart := (if Suc i = n then True else shouldRestart r),
                   statuses := (statuses r)[i := (statuses r ! i)\<lparr>Dirty := False\<rparr>],
                   invoked := invoked r @ [i]\<rparr>
        in case cerr i of
             Some err \<Rightarrow> r1
           | None \<Rightarrow>
               recompile n cerr is
                 (r1\<lparr>statuses := (statuses r1)[i := (statuses r1 ! i)\<lparr>Broken := True\<rparr>]\<rparr>))"

text \<open>Lines 118-159 without the sleep: one poll tick on \<open>n\<close> steps.\<close>

definition tick :: "bool \<Rightarrow> nat \<Rightarrow> tick_env \<Rightarrow> sourceTreeStatus list \<Rightarrow> tick_result" where
  "tick quick n env st =
     recompile n (compileErr env) [0..<n]
       \<lparr>statuses = hash_phase quick n (seenHash env) st, invoked = [], shouldRestart = False\<rparr>"

section \<open>Build.Run\<close>

text \<open>Lines 79-81: \<open>for j := i; j < len(b.Steps); j++ { status[j].Broken = true }\<close>.\<close>

definition mark_broken :: "nat \<Rightarrow> nat \<Rightarrow> sourceTreeStatus list \<Rightarrow> sourceTreeStatus list" where
  "mark_broken i n st = fold (\<lambda>j s. s[j := (s ! j)\<lparr>Broken := True\<rparr>]) [i..<n] st"

text \<open>
  Lines 74-87, the first compile pass. \<open>log.Fatalf\<close> ends the process: \<open>Fatal\<close>. Both
  results carry the steps whose callback was called.
\<close>

datatype first_pass = Fatal string "nat list" | Compiled "sourceTreeStatus list" "nat list"

fun compile_all ::
  "bool \<Rightarrow> nat \<Rightarrow> (nat \<Rightarrow> error) \<Rightarrow> nat list \<Rightarrow> sourceTreeStatus list \<Rightarrow> nat list \<Rightarrow> first_pass" where
  "compile_all watch n cerr [] st called = Compiled st called"
| "compile_all watch n cerr (i # is) st called =
     (case cerr i of
        None \<Rightarrow> compile_all watch n cerr is st (called @ [i])
      | Some err \<Rightarrow>
          if watch then Compiled (mark_broken i n st) (called @ [i])
          else Fatal err (called @ [i]))"

text \<open>Lines 111-113: the digests recorded before the loop starts.\<close>

definition init_hashes :: "nat \<Rightarrow> (nat \<Rightarrow> string) \<Rightarrow> sourceTreeStatus list \<Rightarrow> sourceTreeStatus list" where
  "init_hashes n th st = fold (\<lambda>i s. s[i := (s ! i)\<lparr>TreeHash := th i\<rparr>]) [0..<n] st"

text \<open>
  What an observer sees of a run: a callback being called, an iteration of the watch loop
  starting, a value being received from the \<open>restart\<close> channel.
\<close>

datatype event = Compile nat | Poll | Restart

text \<open>
  Lines 115-160. The list holds the iterations that start before \<open>ctx.Err()\<close> becomes
  non-nil. \<open>restart\<close> is unbuffered and only the goroutine started under \<open>-run\<close> receives from
  it, so without \<open>-run\<close> the send of line 158 never completes: \<open>Blocked\<close>.
\<close>

datatype loop_end = Cancelled | Blocked

fun watch_loop ::
  "bool \<Rightarrow> bool \<Rightarrow> nat \<Rightarrow> tick_env list \<Rightarrow> sourceTreeStatus list
     \<Rightarrow> loop_end \<times> sourceTreeStatus list \<times> event list" where
  "watch_loop quick run n [] st = (Cancelled, st, [])"
| "watch_loop quick run n (e # es) st =
     (let r = tick quick n e st;
          seen = Poll # map Compile (invoked r)
      in if shouldRestart r then
           (if run then
              (case watch_loop quick run n es (statuses r) of
                 (fin, st', tr) \<Rightarrow> (fin, st', seen @ Restart # tr))
            else (Blocked, statuses r, seen))
         else
           (case watch_loop quick run n es (statuses r) of
              (fin, st', tr) \<Rightarrow> (fin, st', seen @ tr)))"

text \<open>
  The flags that \<open>flag.Parse\<close> leaves, and the environment of a whole run: the callbacks'
  errors in the first pass, the digests of lines 111-113, the iterations of the loop and the
  value finally received from \<open>runErr\<close>.
\<close>

record flags =
  conf :: CompileConfig
  watch :: bool
  run :: bool

record run_env =
  firstErr :: "nat \<Rightarrow> error"
  firstHash :: "nat \<Rightarrow> string"
  polls :: "tick_env list"
  exitErr :: error

datatype run_end = CompileFatal string | RunFatal string | Deadlock | Returned

text \<open>
  Lines 59-170 for a build of \<open>n\<close> steps: the way \<open>Run\<close> ends, the final status slice and the
  events in order.
\<close>

definition Run :: "flags \<Rightarrow> nat \<Rightarrow> run_env \<Rightarrow> run_end \<times> sourceTreeStatus list \<times> event list" where
  "Run fl n env =
     (case compile_all (watch fl) n (firstErr env) [0..<n] (replicate n zeroStatus) [] of
        Fatal err called \<Rightarrow> (CompileFatal err, replicate n zeroStatus, map Compile called)
      | Compiled st called \<Rightarrow>
          if watch fl then
            (case watch_loop (Quick (conf fl)) (run fl) n (polls env) (init_hashes n (firstHash env) st) of
               (Blocked, st', tr) \<Rightarrow> (Deadlock, st', map Compile called @ tr)
             | (Cancelled, st', tr) \<Rightarrow>
                 (if run fl then (case exitErr env of Some err \<Rightarrow> RunFatal err | None \<Rightarrow> Returned)
                  else Returned,
                  st', map Compile called @ tr))
          else
            (if run fl then (case exitErr env of Some err \<Rightarrow> RunFatal err | None \<Rightarrow> Returned)
             else Returned,
             st, map Compile called))"

section \<open>The tree hasher\<close>

subsection \<open>Library functions that \<open>directoryHash\<close> calls\<close>

text \<open>
  \<open>filepath.Base\<close>, \<open>filepath.Match\<close> and \<open>hex.EncodeToString\<close> of the Go standard library, for
  a Unix system (separator \<open>/\<close>, no volume names, backslash escapes in patterns). Strings
  are byte lists. \<open>filepath.Match\<close> reads the pattern and the name one byte at a time, except
  where a \<open>?\<close> or a character class consumes a character of the name and where a character
  class names its characters: there it decodes one UTF-8 sequence
  (\<open>utf8.DecodeRuneInString\<close>).
\<close>

text \<open>
  \<open>filepath.Base\<close>: the last element of the path, trailing slashes removed first; \<open>.\<close> for
  the empty path and \<open>/\<close> for a path of slashes only.
\<close>

definition Base :: "string \<Rightarrow> string" where
  "Base path =
     (if path = [] then ''.''
      else
        let path1 = rev (dropWhile (\<lambda>c. c = CHR ''/'') (rev path));
            path2 = rev (takeWhile (\<lambda>c. c \<noteq> CHR ''/'') (rev path1))
        in if path2 = [] then ''/'' else path2)"

text \<open>The only error of \<open>filepath.Match\<close>.\<close>

datatype match_error = ErrBadPattern

text \<open>
  \<open>scanChunk\<close>: the leading stars are dropped (\<open>star\<close> tells whether there was one) and the
  chunk runs up to the next star that is outside a character class; a backslash takes the
  byte after it along. \<open>scanEnd\<close> is the length of the chunk.
\<close>

fun scanEnd :: "bool \<Rightarrow> string \<Rightarrow> nat" where
  "scanEnd inrange [] = 0"
| "scanEnd inrange (c # cs) =
     (if c = CHR 0x5C then (case cs of [] \<Rightarrow> 1 | d # ds \<Rightarrow> 2 + scanEnd inrange ds)
      else if c = CHR ''['' then 1 + scanEnd True cs
      else if c = CHR '']'' then 1 + scanEnd False cs
      else if c = CHR ''*'' \<and> \<not> inrange then 0
      else 1 + scanEnd inrange cs)"

definition scanChunk :: "string \<Rightarrow> bool \<times> string \<times> string" where
  "scanChunk pattern =
     (let star = (pattern \<noteq> [] \<and> hd pattern = CHR ''*'');
          pattern1 = dropWhile (\<lambda>c. c = CHR ''*'') pattern;
          i = scanEnd False pattern1
      in (star, take i pattern1, drop i pattern1))"

text \<open>
  \<open>utf8.DecodeRuneInString\<close>: the code point of the UTF-8 sequence at the head of the
  string and its length in bytes; \<open>(RuneError, 1)\<close> when the first byte starts no valid
  sequence (a continuation byte, an overlong or truncated sequence, a surrogate half, a code
  point above \<open>U+10FFFF\<close>) and \<open>(RuneError, 0)\<close> for the empty string. The second byte
  of a sequence lies between \<open>lo\<close> and \<open>hi\<close>, which depend on the first
  (\<open>acceptRanges\<close>), the third and fourth between \<open>0x80\<close> and \<open>0xBF\<close>.
\<close>

definition RuneError :: nat where
  "RuneError = 0xFFFD"

fun DecodeRuneInString :: "string \<Rightarrow> nat \<times> nat" where
  "DecodeRuneInString [] = (RuneError, 0)"
| "DecodeRuneInString (c0 # s) =
     (let s0 = (of_char c0 :: nat) in
      if s0 < 0x80 then (s0, 1)
      else if s0 < 0xC2 \<or> 0xF4 < s0 then (RuneError, 1)
      else
        let sz = (if s0 < 0xE0 then 2 else if s0 < 0xF0 then 3 else 4 :: nat);
            lo = (if s0 = 0xE0 then 0xA0 else if s0 = 0xF0 then 0x90 else 0x80 :: nat);
            hi = (if s0 = 0xED then 0x9F else if s0 = 0xF4 then 0x8F else 0xBF :: nat)
        in if length (c0 # s) < sz then (RuneError, 1)
           else
             let s1 = (of_char (s ! 0) :: nat) in
             if s1 < lo \<or> hi < s1 then (RuneError, 1)
             else if sz \<le> 2 then ((s0 mod 32) * 64 + s1 mod 64, 2)
             else
               let s2 = (of_char (s ! 1) :: nat) in
               if s2 < 0x80 \<or> 0xBF < s2 then (RuneError, 1)
               else if sz \<le> 3 then ((s0 mod 16) * 4096 + (s1 mod 64) * 64 + s2 mod 64, 3)
               else
                 let s3 = (of_char (s ! 2) :: nat) in
                 if s3 < 0x80 \<or> 0xBF < s3 then (RuneError, 1)
                 else ((s0 mod 8) * 262144 + (s1 mod 64) * 4096 + (s2 mod 64) * 64 + s3 mod 64, 4))"

lemma DecodeRuneInString_size: "s \<noteq> [] \<Longrightarrow> 0 < snd (DecodeRuneInString s)"
  by (cases s) (simp_all add: Let_def)

text \<open>
  \<open>getEsc\<close>: one character of a character class, possibly escaped, and the rest of the chunk,
  which must not be empty.
\<close>

definition getEsc :: "string \<Rightarrow> match_error + (nat \<times> string)" where
  "getEsc chunk =
     (if chunk = [] \<or> hd chunk = CHR ''-'' \<or> hd chunk = CHR '']'' then Inl ErrBadPattern
      else
        let chunk1 = (if hd chunk = CHR 0x5C then tl chunk else chunk)
        in if chunk1 = [] then Inl ErrBadPattern
           else
             case DecodeRuneInString chunk1 of
               (r, n) \<Rightarrow>
                 if r = RuneError \<and> n = 1 then Inl ErrBadPattern
                 else if drop n chunk1 = [] then Inl ErrBadPattern
                 else Inr (r, drop n chunk1))"

lemma getEsc_shorter: "getEsc chunk = Inr (r, rest) \<Longrightarrow> length rest < length chunk"
proof -
  assume g: "getEsc chunk = Inr (r, rest)"
  define chunk1 where "chunk1 = (if hd chunk = CHR 0x5C then tl chunk else chunk)"
  have ne: "chunk1 \<noteq> []" and rest: "rest = drop (snd (DecodeRuneInString chunk1)) chunk1"
    using g by (auto simp: getEsc_def Let_def chunk1_def split: if_splits prod.splits)
  have "0 < snd (DecodeRuneInString chunk1)" using ne by (rule DecodeRuneInString_size)
  then have "length rest < length chunk1" using ne rest by simp
  moreover have "length chunk1 \<le> length chunk" by (simp add: chunk1_def)
  ultimately show ?thesis by simp
qed

text \<open>
  The loop of \<open>matchChunk\<close> over the ranges of a character class, up to the closing bracket:
  whether the character \<open>r\<close> is in one of them, and the rest of the chunk.
\<close>

function classRanges :: "nat \<Rightarrow> string \<Rightarrow> bool \<Rightarrow> nat \<Rightarrow> match_error + (bool \<times> string)" where
  "classRanges r chunk match nrange =
     (if chunk \<noteq> [] \<and> hd chunk = CHR '']'' \<and> nrange > 0 then Inr (match, tl chunk)
      else
        case getEsc chunk of
          Inl e \<Rightarrow> Inl e
        | Inr (lo, chunk1) \<Rightarrow>
            if hd chunk1 = CHR ''-'' then
              (case getEsc (tl chunk1) of
                 Inl e \<Rightarrow> Inl e
               | Inr (hi, chunk2) \<Rightarrow>
                   classRanges r chunk2 (if lo \<le> r \<and> r \<le> hi then True else match) (nrange + 1))
            else classRanges r chunk1 (if lo \<le> r \<and> r \<le> lo then True else match) (nrange + 1))"
  by pat_completeness auto

termination
  by (relation "measure (\<lambda>(r, chunk, match, nrange). length chunk)")
     (auto dest!: getEsc_shorter)

lemma classRanges_shorter:
  "classRanges r chunk match nrange = Inr (m, rest) \<Longrightarrow> length rest < length chunk"
proof (induction r chunk match nrange rule: classRanges.induct)
  case (1 r chunk match nrange)
  show ?case
  proof (cases "chunk \<noteq> [] \<and> hd chunk = CHR '']'' \<and> nrange > 0")
    case True
    then show ?thesis using "1.prems" by (cases chunk) auto
  next
    case False
    then obtain lo chunk1 where g: "getEsc chunk = Inr (lo, chunk1)"
      using "1.prems" by (auto split: sum.splits)
    have s1: "length chunk1 < length chunk" using g by (rule getEsc_shorter)
    show ?thesis
    proof (cases "hd chunk1 = CHR ''-''")
      case True
      then obtain hi chunk2 where g2: "getEsc (tl chunk1) = Inr (hi, chunk2)"
        using "1.prems" False g by (auto split: sum.splits)
      have "length chunk2 < length (tl chunk1)" using g2 by (rule getEsc_shorter)
      moreover have "length rest < length chunk2"
        using "1.IH"(1)[OF False g refl True g2 refl] "1.prems" False g True g2 by simp
      ultimately show ?thesis using s1 by simp
    next
      case F2: False
      have "length rest < length chunk1"
        using "1.IH"(2)[OF False g refl F2] "1.prems" False g F2 by simp
      then show ?thesis using s1 by simp
    qed
  qed
qed

declare classRanges.simps [simp del]

text \<open>
  \<open>matchChunk\<close>: does the chunk match a prefix of \<open>s\<close>, and what is left of \<open>s\<close>
  (\<open>Inr None\<close>: no match). After a mismatch (\<open>failed\<close>) the rest of the chunk is still
  read, for its syntax errors, and \<open>s\<close> no longer.
\<close>

function (sequential) matchChunk :: "string \<Rightarrow> string \<Rightarrow> bool \<Rightarrow> match_error + string option" where
  "matchChunk [] s failed = (if failed then Inr None else Inr (Some s))"
| "matchChunk (c # chunk) s failed0 =
     (let failed = (failed0 \<or> s = []) in
      if c = CHR ''['' then
        let r = (if failed then 0 else fst (DecodeRuneInString s));
            s1 = (if failed then s else drop (snd (DecodeRuneInString s)) s);
            negated = (chunk \<noteq> [] \<and> hd chunk = CHR ''^'');
            chunk1 = (if negated then tl chunk else chunk)
        in case classRanges r chunk1 False 0 of
             Inl e \<Rightarrow> Inl e
           | Inr (match, chunk2) \<Rightarrow> matchChunk chunk2 s1 (failed \<or> match = negated)
      else if c = CHR ''?'' then
        matchChunk chunk (if failed then s else drop (snd (DecodeRuneInString s)) s)
          (failed \<or> hd s = CHR ''/'')
      else if c = CHR 0x5C then
        (case chunk of
           [] \<Rightarrow> Inl ErrBadPattern
         | d # chunk1 \<Rightarrow> matchChunk chunk1 (if failed then s else tl s) (failed \<or> d \<noteq> hd s))
      else matchChunk chunk (if failed then s else tl s) (failed \<or> c \<noteq> hd s))"
  by pat_completeness auto

termination
  by (relation "measure (\<lambda>(chunk, s, failed). length chunk)")
     (auto dest!: classRanges_shorter split: if_splits)

declare matchChunk.simps [simp del]

text \<open>
  The loop of \<open>Match\<close> after a star: the chunk is tried after each byte of the name, up to
  the first separator; for the last chunk (\<open>final\<close>) only a match that uses up the name
  counts.
\<close>

fun starLoop :: "string \<Rightarrow> bool \<Rightarrow> string \<Rightarrow> match_error + string option" where
  "starLoop chunk final [] = Inr None"
| "starLoop chunk final (c # cs) =
     (if c = CHR ''/'' then Inr None
      else
        case matchChunk chunk cs False of
          Inl e \<Rightarrow> Inl e
        | Inr (Some t) \<Rightarrow> if final \<and> t \<noteq> [] then starLoop chunk final cs else Inr (Some t)
        | Inr None \<Rightarrow> starLoop chunk final cs)"

lemma scanEnd_pos: "p \<noteq> [] \<Longrightarrow> hd p \<noteq> CHR ''*'' \<Longrightarrow> 0 < scanEnd False p"
  by (cases p) (auto split: list.splits)

lemma scanChunk_shorter:
  "pattern \<noteq> [] \<Longrightarrow> scanChunk pattern = (star, chunk, rest) \<Longrightarrow> length rest < length pattern"
proof -
  assume ne: "pattern \<noteq> []" and sc: "scanChunk pattern = (star, chunk, rest)"
  let ?p = "dropWhile (\<lambda>c. c = CHR ''*'') pattern"
  have rest: "rest = drop (scanEnd False ?p) ?p" using sc by (simp add: scanChunk_def Let_def)
  have le: "length ?p \<le> length pattern" by (rule length_dropWhile_le)
  show ?thesis
  proof (cases "?p = []")
    case True
    have "rest = []" by (simp only: rest True drop_Nil)
    then show ?thesis using ne by simp
  next
    case False
    then have "hd ?p \<noteq> CHR ''*''" using hd_dropWhile[of "\<lambda>c. c = CHR ''*''" pattern] by simp
    then have "0 < scanEnd False ?p" using False by (rule scanEnd_pos[rotated])
    then have "length rest < length ?p" using rest False by simp
    then show ?thesis using le by simp
  qed
qed

text \<open>
  \<open>filepath.Match\<close>: the pattern is matched chunk by chunk; a trailing star matches whatever
  has no separator.
\<close>

function Match :: "string \<Rightarrow> string \<Rightarrow> match_error + bool" where
  "Match pattern name =
     (if pattern = [] then Inr (name = [])
      else
        case scanChunk pattern of
          (star, chunk, rest) \<Rightarrow>
            if star \<and> chunk = [] then Inr (CHR ''/'' \<notin> set name)
            else
              case matchChunk chunk name False of
                Inl e \<Rightarrow> Inl e
              | Inr found \<Rightarrow>
                  (case (if found = None then None
                         else if the found = [] \<or> rest \<noteq> [] then found else None) of
                     Some t \<Rightarrow> Match rest t
                   | None \<Rightarrow>
                       if star then
                         (case starLoop chunk (rest = []) name of
                            Inl e \<Rightarrow> Inl e
                          | Inr (Some t) \<Rightarrow> Match rest t
                          | Inr None \<Rightarrow> Inr False)
                       else Inr False))"
  by pat_completeness auto

termination
  by (relation "measure (\<lambda>(pattern, name). length pattern)")
     (auto dest: scanChunk_shorter[OF _ sym])

declare Match.simps [simp del]

text \<open>\<open>hex.EncodeToString\<close>: two lower-case hexadecimal digits for each byte.\<close>

definition hexdigit :: "nat \<Rightarrow> char" where
  "hexdigit n = ''0123456789abcdef'' ! n"

definition EncodeToString :: "string \<Rightarrow> string" where
  "EncodeToString src = concat (map (\<lambda>b. [hexdigit (of_char b div 16), hexdigit (of_char b mod 16)]) src)"

text \<open>
  \<open>sha1\<close> and \<open>path.Join\<close> are parameters: \<open>sha1_Sum h\<close> is the 20-byte digest that
  \<open>h.Sum(nil)\<close> returns after the bytes \<open>h\<close> have been written to a fresh \<open>sha1.New()\<close>, and
  \<open>path_Join dir name\<close> is \<open>path.Join(dir, name)\<close>. What is proved holds for every
  choice of the two.
\<close>

record library =
  sha1_Sum :: "string \<Rightarrow> string"
  path_Join :: "string \<Rightarrow> string \<Rightarrow> string"

subsection \<open>The filesystem\<close>

text \<open>
  What the system calls of \<open>directoryHash\<close> return for a path. \<open>Stat p\<close> is \<open>None\<close> when
  \<open>os.Stat\<close> fails and otherwise \<open>fi.IsDir()\<close>; \<open>Readdirnames p\<close> is \<open>None\<close> when
  \<open>os.Open\<close> or \<open>f.Readdirnames(-1)\<close> fails and otherwise the names, in the order the
  directory lists them; \<open>ReadFile p\<close> is \<open>None\<close> when \<open>os.Open\<close> fails and otherwise
  the bytes that \<open>io.Copy\<close> writes to the hasher.
\<close>

record filesystem =
  Stat :: "string \<Rightarrow> bool option"
  Readdirnames :: "string \<Rightarrow> string list option"
  ReadFile :: "string \<Rightarrow> string option"

subsection \<open>\<open>directoryHash\<close> and \<open>sourceTreeHash\<close>\<close>

text \<open>
  Lines 288-295: the loop over \<open>w.FileFilter\<close>, \<open>found\<close> threaded through; the error of
  \<open>filepath.Match\<close> is dropped, as \<open>ok, _ :=\<close> does.
\<close>

fun matchesFilter :: "string list \<Rightarrow> string \<Rightarrow> bool \<Rightarrow> bool" where
  "matchesFilter [] filePath found = found"
| "matchesFilter (pattern # patterns) filePath found =
     (if Match pattern filePath = Inr True then matchesFilter patterns filePath True
      else if Match pattern (Base filePath) = Inr True then matchesFilter patterns filePath True
      else matchesFilter patterns filePath found)"

text \<open>Lines 287-299: the test under which a file returns the empty byte slice.\<close>

definition filteredOut :: "WatchList \<Rightarrow> string \<Rightarrow> bool" where
  "filteredOut w filePath =
     (case FileFilter w of
        None \<Rightarrow> False
      | Some patterns \<Rightarrow> \<not> matchesFilter patterns filePath False)"

text \<open>Lines 267-271: the test under which a directory returns the empty byte slice.\<close>

definition excluded :: "nat \<Rightarrow> string \<Rightarrow> bool" where
  "excluded level base =
     (level > 0 \<and>
      (base = ''.git'' \<or> base = ''..'' \<or> base = ''node_modules'' \<or> base = ''build'' \<or>
       base = ''doc''))"

text \<open>
  Lines 257-307. The hasher \<open>h\<close> is the bytes written to it so far. The recursion follows
  the directory tree, which the filesystem record does not bound, so the function takes fuel:
  each call of \<open>directoryHash\<close> uses one unit, and \<open>None\<close> means that the fuel ran out
  (\<open>fuel_mono\<close> below: a result, once returned, is the result for any larger fuel).
  \<open>writeChildren\<close> is the loop of lines 279-284 over the names of a directory.
\<close>

fun directoryHash ::
    "library \<Rightarrow> filesystem \<Rightarrow> nat \<Rightarrow> nat \<Rightarrow> string \<Rightarrow> WatchList \<Rightarrow> string option"
  and writeChildren ::
    "library \<Rightarrow> filesystem \<Rightarrow> nat \<Rightarrow> nat \<Rightarrow> string \<Rightarrow> WatchList \<Rightarrow> string list \<Rightarrow> string \<Rightarrow> string option"
  where
  "directoryHash L fs 0 level filePath w = None"
| "directoryHash L fs (Suc fuel) level filePath w =
     (case Stat fs filePath of
        None \<Rightarrow> Some (sha1_Sum L filePath)
      | Some isDir \<Rightarrow>
          if isDir then
            (if excluded level (Base filePath) then Some []
             else
               case Readdirnames fs filePath of
                 None \<Rightarrow> Some (sha1_Sum L filePath)
               | Some names \<Rightarrow>
                   map_option (sha1_Sum L) (writeChildren L fs fuel level filePath w names filePath))
          else
            (if filteredOut w filePath then Some []
             else
               case ReadFile fs filePath of
                 None \<Rightarrow> Some (sha1_Sum L filePath)
               | Some bytes \<Rightarrow> Some (sha1_Sum L (filePath @ bytes))))"
| "writeChildren L fs fuel level filePath w [] h = Some h"
| "writeChildren L fs fuel level filePath w (name # names) h =
     (if name = [] \<or> hd name = CHR ''.'' then writeChildren L fs fuel level filePath w names h
      else
        case directoryHash L fs fuel (level + 1) (path_Join L filePath name) w of
          None \<Rightarrow> None
        | Some d \<Rightarrow> writeChildren L fs fuel level filePath w names (h @ d))"

text \<open>Lines 249-255: the loop over \<open>w.Paths\<close>, and the digest in hexadecimal.\<close>

fun writeRoots :: "library \<Rightarrow> filesystem \<Rightarrow> nat \<Rightarrow> WatchList \<Rightarrow> string list \<Rightarrow> string \<Rightarrow> string option" where
  "writeRoots L fs fuel w [] h = Some h"
| "writeRoots L fs fuel w (d # ds) h =
     (case directoryHash L fs fuel 0 d w of
        None \<Rightarrow> None
      | Some x \<Rightarrow> writeRoots L fs fuel w ds (h @ x))"

definition sourceTreeHash :: "library \<Rightarrow> filesystem \<Rightarrow> nat \<Rightarrow> WatchList \<Rightarrow> string option" where
  "sourceTreeHash L fs fuel w =
     map_option (\<lambda>h. EncodeToString (sha1_Sum L h)) (writeRoots L fs fuel w (Paths w) [])"

section \<open>Auxiliary functions for the proofs\<close>

text \<open>
  The steps of a list that are marked Dirty, and the callbacks a recompilation loop calls
  among them: each in turn up to and including the first that returns an error.
\<close>

fun attempts :: "(nat \<Rightarrow> error) \<Rightarrow> nat list \<Rightarrow> nat list" where
  "attempts cerr [] = []"
| "attempts cerr (d # ds) = (case cerr d of None \<Rightarrow> d # attempts cerr ds | Some e \<Rightarrow> [d])"

definition dirty_steps :: "sourceTreeStatus list \<Rightarrow> nat list \<Rightarrow> nat list" where
  "dirty_steps st is = filter (\<lambda>i. Dirty (st ! i)) is"

text \<open>
  No entry is Dirty and Broken at once. The first pass and the watch loop keep it so
  (\<open>first_pass_consistent\<close>, \<open>watch_loop_consistent\<close> below).
\<close>

definition consistent :: "sourceTreeStatus list \<Rightarrow> bool" where
  "consistent st = list_all (\<lambda>s. \<not> (Dirty s \<and> Broken s)) st"

text \<open>An entry with a recorded digest and both flags clear, for the examples.\<close>

definition clean :: "string \<Rightarrow> sourceTreeStatus" where
  "clean h = \<lparr>TreeHash = h, Dirty = False, Broken = False\<rparr>"

text \<open>
  The paths that the hasher visits: \<open>descends\<close> is one step from a directory that is
  listed to one of its entries that is not skipped, and \<open>visited\<close> is what is reached from the
  roots of a watch list. \<open>agree\<close>: two filesystems answer alike at a path.
\<close>

inductive descends :: "library \<Rightarrow> filesystem \<Rightarrow> nat \<times> string \<Rightarrow> nat \<times> string \<Rightarrow> bool"
  for L :: library and fs :: filesystem where
  child: "Stat fs p = Some True \<Longrightarrow> \<not> excluded level (Base p) \<Longrightarrow>
     Readdirnames fs p = Some names \<Longrightarrow> name \<in> set names \<Longrightarrow>
     name \<noteq> [] \<Longrightarrow> hd name \<noteq> CHR ''.'' \<Longrightarrow>
     descends L fs (level, p) (level + 1, path_Join L p name)"

definition visited :: "library \<Rightarrow> filesystem \<Rightarrow> WatchList \<Rightarrow> string set" where
  "visited L fs w = {q. \<exists>root \<in> set (Paths w). \<exists>l. (descends L fs)\<^sup>*\<^sup>* (0, root) (l, q)}"

definition agree :: "filesystem \<Rightarrow> filesystem \<Rightarrow> string \<Rightarrow> bool" where
  "agree fs fs' q =
     (Stat fs' q = Stat fs q \<and> Readdirnames fs' q = Readdirnames fs q \<and> ReadFile fs' q = ReadFile fs q)"

text \<open>
  A small tree for the examples: \<open>src\<close> holds \<open>main.txt\<close>, a hidden entry, and the
  directories \<open>pkg\<close> and \<open>doc\<close>, each with a \<open>main.go\<close>. The stand-in for SHA-1 puts its
  input between angle brackets, so that a digest shows what went into it; the stand-in for
  \<open>path.Join\<close> is what the library returns for a clean directory path and an entry name.
  \<open>demoFS2\<close> differs from \<open>demoFS\<close> in the bytes of \<open>src/doc/main.go\<close> only.
\<close>

definition demoLib :: library where
  "demoLib = \<lparr>sha1_Sum = (\<lambda>h. ''<'' @ h @ ''>''), path_Join = (\<lambda>dir name. dir @ ''/'' @ name)\<rparr>"

definition demoFS :: filesystem where
  "demoFS =
     \<lparr>Stat = (\<lambda>p. if p = ''src'' \<or> p = ''src/pkg'' \<or> p = ''src/doc'' then Some True
                   else if p = ''src/main.txt'' \<or> p = ''src/pkg/main.go'' \<or> p = ''src/doc/main.go''
                   then Some False else None),
      Readdirnames = (\<lambda>p. if p = ''src'' then Some [''main.txt'', ''.cache'', ''pkg'', ''doc'']
                           else if p = ''src/pkg'' \<or> p = ''src/doc'' then Some [''main.go'']
                           else None),
      ReadFile = (\<lambda>p. if p = ''src/main.txt'' then Some ''notes''
                       else if p = ''src/pkg/main.go'' then Some ''package pkg''
                       else if p = ''src/doc/main.go'' then Some ''package doc''
                       else None)\<rparr>"

definition demoFS2 :: filesystem where
  "demoFS2 = demoFS\<lparr>ReadFile := (ReadFile demoFS)(''src/doc/main.go'' := Some ''package other'')\<rparr>"

definition demoWatch :: WatchList where
  "demoWatch = \<lparr>Paths = [''src''], FileFilter = Some [''*.go'']\<rparr>"

text \<open>
  One directory listed in two orders: \<open>src\<close> holds the files \<open>a.go\<close> and \<open>b.go\<close>, which
  \<open>listedAB\<close> lists in this order and \<open>listedBA\<close> in the other; kinds and bytes are the
  same. \<open>notOpened\<close> is the tree of \<open>listedAB\<close> at a moment when \<open>os.Open\<close> fails on
  the directory. The watch list \<open>plainWatch\<close> has no filter.
\<close>

definition listedAB :: filesystem where
  "listedAB =
     \<lparr>Stat = (\<lambda>p. if p = ''src'' then Some True
                   else if p = ''src/a.go'' \<or> p = ''src/b.go'' then Some False else None),
      Readdirnames = (\<lambda>p. if p = ''src'' then Some [''a.go'', ''b.go''] else None),
      ReadFile = (\<lambda>p. if p = ''src/a.go'' then Some ''A''
                       else if p = ''src/b.go'' then Some ''B'' else None)\<rparr>"

definition listedBA :: filesystem where
  "listedBA = listedAB\<lparr>Readdirnames := (\<lambda>p. if p = ''src'' then Some [''b.go'', ''a.go''] else None)\<rparr>"

definition notOpened :: filesystem where
  "notOpened = listedAB\<lparr>Readdirnames := (\<lambda>p. None)\<rparr>"

definition plainWatch :: WatchList where
  "plainWatch = \<lparr>Paths = [''src''], FileFilter = None\<rparr>"

text \<open>
  What a digest is taken of. \<open>hashedInto L x d\<close>: the bytes \<open>x\<close> are part of what the digest
  \<open>d\<close> is the hash of, or part of what a digest is the hash of that is itself hashed into
  \<open>d\<close>. \<open>content\<close> is what \<open>io.Copy\<close> writes to the hasher for a file: nothing when the file
  cannot be opened.
\<close>

inductive hashedInto :: "library \<Rightarrow> string \<Rightarrow> string \<Rightarrow> bool"
  for L :: library and x :: string where
  written: "hashedInto L x (sha1_Sum L (a @ x @ b))"
| onward: "hashedInto L x d \<Longrightarrow> hashedInto L x (sha1_Sum L (a @ d @ b))"







section \<open>The hashing loop\<close>

lemma fold_update_length:
  "length (fold (\<lambda>j s. s[j := f j (s ! j)]) js st) = length st"
  by (induction js arbitrary: st) auto

lemma fold_update_nth:
  "distinct js \<Longrightarrow>
   fold (\<lambda>j s. s[j := f j (s ! j)]) js st ! k =
     (if k \<in> set js \<and> k < length st then f k (st ! k) else st ! k)"
proof (induction js arbitrary: st)
  case Nil
  then show ?case by simp
next
  case (Cons j js)
  then show ?case
    by (cases "j = k") (auto simp: nth_list_update list_update_beyond)
qed

lemma cascade_length: "length (cascade quick i st) = length st"
  unfolding cascade_def by (rule fold_update_length)

lemma cascade_nth:
  "cascade quick i st ! k = (if i < k \<and> k < length st then invalidate quick (st ! k) else st ! k)"
  unfolding cascade_def by (subst fold_update_nth) auto

lemma detect_length: "length (detect quick th i st) = length st"
  by (simp add: detect_def Let_def cascade_length)

lemma detect_nth:
  "i < length st \<Longrightarrow> k < length st \<Longrightarrow>
   detect quick th i st ! k =
     (if TreeHash (st ! i) = th then st ! k
      else if k < i then st ! k
      else if k = i then (st ! i)\<lparr>Dirty := True, Broken := False, TreeHash := th\<rparr>
      else invalidate quick (st ! k))"
  by (auto simp: detect_def Let_def cascade_length cascade_nth nth_list_update)

lemma hash_phase_Suc:
  "hash_phase quick (Suc n) th st = detect quick (th n) n (hash_phase quick n th st)"
  by (simp add: hash_phase_def)

lemma hash_phase_0: "hash_phase quick 0 th st = st"
  by (simp add: hash_phase_def)

lemma hash_phase_length: "length (hash_phase quick n th st) = length st"
  by (induction n) (simp_all add: hash_phase_0 hash_phase_Suc detect_length)

lemma invalidate_TreeHash: "TreeHash (invalidate quick s) = TreeHash s"
  by (simp add: invalidate_def)

lemma detect_TreeHash:
  "i < length st \<Longrightarrow> k < length st \<Longrightarrow>
   TreeHash (detect quick th i st ! k) = (if k = i then th else TreeHash (st ! k))"
  by (simp add: detect_nth invalidate_TreeHash)

lemma hash_phase_unchanged:
  "(\<And>i. i < n \<Longrightarrow> th i = TreeHash (st ! i)) \<Longrightarrow> hash_phase quick n th st = st"
proof (induction n)
  case 0
  show ?case by (simp add: hash_phase_0)
next
  case (Suc n)
  have "hash_phase quick n th st = st" using Suc by simp
  moreover have "th n = TreeHash (st ! n)" using Suc.prems by simp
  ultimately show ?case by (simp add: hash_phase_Suc detect_def)
qed

lemma hash_phase_TreeHash:
  "n \<le> length st \<Longrightarrow> k < length st \<Longrightarrow>
   TreeHash (hash_phase quick n th st ! k) = (if k < n then th k else TreeHash (st ! k))"
proof (induction n)
  case 0
  show ?case by (simp add: hash_phase_0)
next
  case (Suc n)
  then show ?case
    by (simp add: hash_phase_Suc detect_TreeHash hash_phase_length less_Suc_eq)
qed

lemma hash_phase_prefix:
  "n \<le> length st \<Longrightarrow> k < length st \<Longrightarrow>
   (\<And>j. j < n \<Longrightarrow> j \<le> k \<Longrightarrow> th j = TreeHash (st ! j)) \<Longrightarrow>
   hash_phase quick n th st ! k = st ! k"
proof (induction n)
  case 0
  show ?case by (simp add: hash_phase_0)
next
  case (Suc n)
  have ih: "hash_phase quick n th st ! k = st ! k" using Suc by simp
  show ?case
  proof (cases "n \<le> k")
    case True
    have "TreeHash (hash_phase quick n th st ! n) = TreeHash (st ! n)"
      using Suc.prems by (simp add: hash_phase_TreeHash)
    moreover have "th n = TreeHash (st ! n)" using Suc.prems True by simp
    ultimately show ?thesis using ih by (simp add: hash_phase_Suc detect_def)
  next
    case False
    then show ?thesis using Suc.prems ih
      by (simp add: hash_phase_Suc detect_nth hash_phase_length)
  qed
qed

lemma dirty_steps_update:
  "i \<notin> set is \<Longrightarrow> dirty_steps (st[i := v]) is = dirty_steps st is"
  unfolding dirty_steps_def
proof (rule filter_cong[OF refl])
  fix x assume "i \<notin> set is" "x \<in> set is"
  then have "i \<noteq> x" by auto
  then show "Dirty (st[i := v] ! x) = Dirty (st ! x)" by simp
qed

lemma recompile_invoked:
  "distinct is \<Longrightarrow>
   invoked (recompile n cerr is r) = invoked r @ attempts cerr (dirty_steps (statuses r) is)"
proof (induction "is" arbitrary: r)
  case Nil
  show ?case by (simp add: dirty_steps_def)
next
  case (Cons i "is")
  show ?case
  proof (cases "Dirty (statuses r ! i)")
    case False
    then show ?thesis using Cons by (simp add: dirty_steps_def)
  next
    case True
    show ?thesis
    proof (cases "cerr i")
      case (Some e)
      then show ?thesis using True by (simp add: dirty_steps_def Let_def)
    next
      case None
      have "i \<notin> set is" using Cons.prems by simp
      then show ?thesis using True None Cons
        by (simp add: Let_def dirty_steps_update) (simp add: dirty_steps_def)
    qed
  qed
qed

lemma recompile_length: "length (statuses (recompile n cerr is r)) = length (statuses r)"
  by (induction "is" arbitrary: r) (auto simp: Let_def split: option.splits)

lemma recompile_restart:
  "distinct is \<Longrightarrow>
   shouldRestart (recompile n cerr is r) =
     (shouldRestart r \<or> (\<exists>i \<in> set (attempts cerr (dirty_steps (statuses r) is)). Suc i = n))"
proof (induction "is" arbitrary: r)
  case Nil
  show ?case by (simp add: dirty_steps_def)
next
  case (Cons i "is")
  show ?case
  proof (cases "Dirty (statuses r ! i)")
    case False
    then show ?thesis using Cons by (simp add: dirty_steps_def)
  next
    case True
    show ?thesis
    proof (cases "cerr i")
      case (Some e)
      then show ?thesis using True by (auto simp add: dirty_steps_def Let_def)
    next
      case None
      have "i \<notin> set is" using Cons.prems by simp
      then show ?thesis using True None Cons
        by (simp add: Let_def dirty_steps_update) (auto simp add: dirty_steps_def)
    qed
  qed
qed

lemma recompile_nth:
  "distinct is \<Longrightarrow> k < length (statuses r) \<Longrightarrow>
   statuses (recompile n cerr is r) ! k =
     (if k \<in> set (attempts cerr (dirty_steps (statuses r) is))
      then (statuses r ! k)\<lparr>Dirty := False,
             Broken := (if cerr k = None then True else Broken (statuses r ! k))\<rparr>
      else statuses r ! k)"
proof (induction "is" arbitrary: r)
  case Nil
  show ?case by (simp add: dirty_steps_def)
next
  case (Cons i "is")
  show ?case
  proof (cases "Dirty (statuses r ! i)")
    case False
    then show ?thesis using Cons by (simp add: dirty_steps_def)
  next
    case True
    show ?thesis
    proof (cases "cerr i")
      case (Some e)
      then show ?thesis using True Cons.prems
        by (auto simp add: dirty_steps_def Let_def nth_list_update)
    next
      case None
      have ni: "i \<notin> set is" using Cons.prems by simp
      have sub: "set (attempts cerr ds) \<subseteq> set ds" for ds
        by (induction ds) (auto split: option.splits)
      have "i \<notin> set (attempts cerr (dirty_steps (statuses r) is))"
        using ni sub[of "dirty_steps (statuses r) is"] by (auto simp: dirty_steps_def)
      then have notin: "i \<notin> set (attempts cerr (filter (\<lambda>i. Dirty (statuses r ! i)) is))"
        by (simp add: dirty_steps_def)
      show ?thesis
      proof (cases "k = i")
        case True
        then show ?thesis using \<open>Dirty (statuses r ! i)\<close> None Cons ni notin
          by (simp add: Let_def dirty_steps_update) (simp add: dirty_steps_def)
      next
        case False
        then show ?thesis using \<open>Dirty (statuses r ! i)\<close> None Cons ni notin
          by (simp add: Let_def dirty_steps_update) (simp add: dirty_steps_def)
      qed
    qed
  qed
qed

section \<open>The recompilation loop and the tick\<close>

lemma attempts_subset: "set (attempts cerr ds) \<subseteq> set ds"
  by (induction ds) (auto split: option.splits)

lemma attempts_all_ok:
  "(\<And>d. d \<in> set (attempts cerr ds) \<Longrightarrow> cerr d = None) \<Longrightarrow> attempts cerr ds = ds"
  by (induction ds) (auto split: option.splits)

lemma attempts_stop:
  "sorted_wrt (<) ds \<Longrightarrow> i \<in> set (attempts cerr ds) \<Longrightarrow> cerr i = Some e \<Longrightarrow>
   j \<in> set (attempts cerr ds) \<Longrightarrow> j \<le> i"
proof (induction ds)
  case Nil
  then show ?case by simp
next
  case (Cons d ds)
  show ?case
  proof (cases "cerr d")
    case (Some e')
    then show ?thesis using Cons.prems by simp
  next
    case None
    then have "i \<noteq> d" using Cons.prems by auto
    then have i: "i \<in> set (attempts cerr ds)" using Cons.prems None by simp
    show ?thesis
    proof (cases "j = d")
      case True
      have "i \<in> set ds" using i attempts_subset by blast
      then show ?thesis using Cons.prems(1) True by auto
    next
      case False
      then have "j \<in> set (attempts cerr ds)" using Cons.prems None by simp
      then show ?thesis using Cons i by simp
    qed
  qed
qed

lemma attempts_reached:
  "j \<in> set ds \<Longrightarrow> sorted_wrt (<) ds \<Longrightarrow> (\<And>k. k \<in> set ds \<Longrightarrow> k < j \<Longrightarrow> cerr k = None) \<Longrightarrow>
   j \<in> set (attempts cerr ds)"
proof (induction ds)
  case Nil
  then show ?case by simp
next
  case (Cons d ds)
  show ?case
  proof (cases "j = d")
    case True
    then show ?thesis by (simp split: option.splits)
  next
    case False
    then have jd: "j \<in> set ds" using Cons.prems by simp
    then have "d < j" using Cons.prems(2) by auto
    then have "cerr d = None" using Cons.prems(3) by simp
    moreover have "j \<in> set (attempts cerr ds)"
      using Cons.IH jd Cons.prems by simp
    ultimately show ?thesis by simp
  qed
qed

lemma sorted_dirty_steps: "sorted_wrt (<) (dirty_steps st [0..<n])"
  unfolding dirty_steps_def by (simp add: sorted_wrt_filter)

lemma set_dirty_steps: "set (dirty_steps st [0..<n]) = {i. i < n \<and> Dirty (st ! i)}"
  unfolding dirty_steps_def by auto

lemma tick_invoked:
  "invoked (tick quick n e st) =
     attempts (compileErr e) (dirty_steps (hash_phase quick n (seenHash e) st) [0..<n])"
  by (simp add: tick_def recompile_invoked)

lemma tick_restart:
  "shouldRestart (tick quick n e st) = (\<exists>i \<in> set (invoked (tick quick n e st)). Suc i = n)"
  by (simp add: tick_invoked) (simp add: tick_def recompile_restart)

lemma tick_length: "length (statuses (tick quick n e st)) = length st"
  by (simp add: tick_def recompile_length hash_phase_length)

lemma tick_nth:
  "k < length st \<Longrightarrow>
   statuses (tick quick n e st) ! k =
     (if k \<in> set (invoked (tick quick n e st))
      then (hash_phase quick n (seenHash e) st ! k)\<lparr>Dirty := False,
             Broken := (if compileErr e k = None then True
                        else Broken (hash_phase quick n (seenHash e) st ! k))\<rparr>
      else hash_phase quick n (seenHash e) st ! k)"
  by (simp add: tick_invoked) (simp add: tick_def recompile_nth hash_phase_length)

lemma tick_invoked_dirty:
  "i \<in> set (invoked (tick quick n e st)) \<Longrightarrow>
   i < n \<and> Dirty (hash_phase quick n (seenHash e) st ! i)"
  using attempts_subset[of "compileErr e" "dirty_steps (hash_phase quick n (seenHash e) st) [0..<n]"]
  by (auto simp: tick_invoked set_dirty_steps)

section \<open>Three steps\<close>

lemma length3: "length st = 3 \<Longrightarrow> \<exists>a b c. st = [a, b, c]"
  by (auto simp: length_Suc_conv numeral_3_eq_3)

lemma upt3: "[0..<3] = [0, 1, 2]" "[1..<3] = [1,2]" "[2..<3] = [2]" "[3..<3] = []"
  by (simp_all add: upt_rec)

section \<open>The first pass, the invariant and the watch loop\<close>

lemma mark_broken_length: "length (mark_broken i n st) = length st"
  unfolding mark_broken_def by (rule fold_update_length[where f = "\<lambda>j s. s\<lparr>Broken := True\<rparr>"])

lemma mark_broken_nth:
  "mark_broken i n st ! j =
     (if i \<le> j \<and> j < n \<and> j < length st then (st ! j)\<lparr>Broken := True\<rparr> else st ! j)"
  unfolding mark_broken_def
  by (subst fold_update_nth[where f = "\<lambda>j s. s\<lparr>Broken := True\<rparr>"]) auto

lemma init_hashes_length: "length (init_hashes n th st) = length st"
  unfolding init_hashes_def by (rule fold_update_length[where f = "\<lambda>j s. s\<lparr>TreeHash := th j\<rparr>"])

lemma init_hashes_nth:
  "init_hashes n th st ! j =
     (if j < n \<and> j < length st then (st ! j)\<lparr>TreeHash := th j\<rparr> else st ! j)"
  unfolding init_hashes_def
  by (subst fold_update_nth[where f = "\<lambda>j s. s\<lparr>TreeHash := th j\<rparr>"]) auto

lemma compile_all_failure:
  "a \<le> i \<Longrightarrow> i < n \<Longrightarrow> cerr i = Some err \<Longrightarrow> (\<And>k. a \<le> k \<Longrightarrow> k < i \<Longrightarrow> cerr k = None) \<Longrightarrow>
   compile_all True n cerr [a..<n] st called = Compiled (mark_broken i n st) (called @ [a..<Suc i])"
proof (induction "i - a" arbitrary: a called)
  case 0
  then have "a = i" by simp
  then show ?case using 0 by (simp add: upt_conv_Cons)
next
  case (Suc d)
  then have lt: "a < i" by simp
  then have none: "cerr a = None" using Suc.prems by simp
  have step: "compile_all True n cerr [Suc a..<n] st (called @ [a]) =
      Compiled (mark_broken i n st) ((called @ [a]) @ [Suc a..<Suc i])"
    using Suc.hyps(1)[of "Suc a" "called @ [a]"] Suc.hyps(2) Suc.prems lt by simp
  have "[a..<n] = a # [Suc a..<n]" using lt Suc.prems by (simp add: upt_conv_Cons)
  moreover have "[a..<Suc i] = a # [Suc a..<Suc i]" using lt by (simp add: upt_conv_Cons)
  ultimately show ?case using none step by simp
qed

lemma attempts_before:
  "sorted_wrt (<) ds \<Longrightarrow> i \<in> set (attempts cerr ds) \<Longrightarrow> k \<in> set ds \<Longrightarrow> k < i \<Longrightarrow>
   k \<in> set (attempts cerr ds)"
proof (induction ds)
  case Nil
  then show ?case by simp
next
  case (Cons d ds)
  show ?case
  proof (cases "cerr d")
    case (Some e)
    then have "i = d" using Cons.prems by simp
    then show ?thesis using Cons.prems by auto
  next
    case None
    show ?thesis
    proof (cases "k = d")
      case True
      then show ?thesis using None by simp
    next
      case False
      then have k: "k \<in> set ds" using Cons.prems by simp
      then have "d < k" using Cons.prems(1) by auto
      then have "i \<noteq> d" using Cons.prems by auto
      then have "i \<in> set (attempts cerr ds)" using Cons.prems None by simp
      then show ?thesis using Cons k None by simp
    qed
  qed
qed

lemma tick_Dirty:
  "k < length st \<Longrightarrow>
   Dirty (statuses (tick quick n e st) ! k) =
     (Dirty (hash_phase quick n (seenHash e) st ! k) \<and> k \<notin> set (invoked (tick quick n e st)))"
  by (simp add: tick_nth)

lemma tick_TreeHash:
  "k < length st \<Longrightarrow>
   TreeHash (statuses (tick quick n e st) ! k) = TreeHash (hash_phase quick n (seenHash e) st ! k)"
  by (simp add: tick_nth)

lemma tick_invoked_before:
  assumes "i \<in> set (invoked (tick quick n e st))" and "k < i"
    and "Dirty (hash_phase quick n (seenHash e) st ! k)"
  shows "k \<in> set (invoked (tick quick n e st))"
proof -
  have "i < n" using assms(1) tick_invoked_dirty by blast
  then have "k \<in> set (dirty_steps (hash_phase quick n (seenHash e) st) [0..<n])"
    using assms by (simp add: set_dirty_steps)
  then show ?thesis
    using attempts_before[OF sorted_dirty_steps, of i "compileErr e" _ n k] assms
    by (simp add: tick_invoked)
qed

lemma tick_clean_upto:
  assumes "length st = n" and "i \<in> set (invoked (tick quick n e st))" and "k \<le> i"
  shows "\<not> Dirty (statuses (tick quick n e st) ! k)"
proof -
  have "i < n" using assms(2) tick_invoked_dirty by blast
  then have "k < length st" using assms by simp
  then show ?thesis
    using tick_invoked_before[OF assms(2), of k] assms(2,3)
    by (cases "k = i") (auto simp: tick_Dirty)
qed

lemma tick_quiet:
  assumes "length st = n" and "i < n" and "\<not> Dirty (st ! i)"
    and "\<And>k. k \<le> i \<Longrightarrow> seenHash e k = TreeHash (st ! k)"
  shows "i \<notin> set (invoked (tick quick n e st))"
    and "\<not> Dirty (statuses (tick quick n e st) ! i)"
    and "\<And>k. k \<le> i \<Longrightarrow> TreeHash (statuses (tick quick n e st) ! k) = TreeHash (st ! k)"
proof -
  have H: "hash_phase quick n (seenHash e) st ! k = st ! k" if "k \<le> i" for k
    using that assms by (intro hash_phase_prefix) auto
  show 1: "i \<notin> set (invoked (tick quick n e st))"
    using tick_invoked_dirty[of i quick n e st] H[of i] assms(3) by auto
  show "\<not> Dirty (statuses (tick quick n e st) ! i)"
    using 1 H[of i] assms by (simp add: tick_Dirty)
  show "TreeHash (statuses (tick quick n e st) ! k) = TreeHash (st ! k)" if "k \<le> i" for k
    using H[OF that] that assms by (simp add: tick_TreeHash)
qed

lemma watch_loop_quiet:
  "length st = n \<Longrightarrow> i < n \<Longrightarrow> \<not> Dirty (st ! i) \<Longrightarrow>
   (\<forall>e \<in> set es. \<forall>k \<le> i. seenHash e k = TreeHash (st ! k)) \<Longrightarrow>
   Compile i \<notin> set (snd (snd (watch_loop quick rn n es st)))"
proof (induction es arbitrary: st)
  case Nil
  show ?case by simp
next
  case (Cons e es)
  let ?r = "tick quick n e st"
  have same: "\<And>k. k \<le> i \<Longrightarrow> seenHash e k = TreeHash (st ! k)" using Cons.prems by simp
  note q = tick_quiet[OF Cons.prems(1,2,3) same, where quick = quick]
  have "Compile i \<notin> set (snd (snd (watch_loop quick rn n es (statuses ?r))))"
  proof (rule Cons.IH)
    show "length (statuses ?r) = n" using Cons.prems by (simp add: tick_length)
    show "i < n" by fact
    show "\<not> Dirty (statuses ?r ! i)" using q(2) by simp
    show "\<forall>e \<in> set es. \<forall>k \<le> i. seenHash e k = TreeHash (statuses ?r ! k)"
      using Cons.prems(4) q(3) by simp
  qed
  then show ?case using q(1)
    by (auto simp: Let_def split: prod.splits)
qed

lemma consistent_nth:
  "consistent st = (\<forall>k < length st. \<not> (Dirty (st ! k) \<and> Broken (st ! k)))"
  by (simp add: consistent_def list_all_length)

lemma detect_beyond: "length st \<le> i \<Longrightarrow> detect quick th i st = st"
  by (simp add: detect_def cascade_def Let_def list_update_beyond)

lemma detect_consistent: "consistent st \<Longrightarrow> consistent (detect quick th i st)"
proof (cases "i < length st")
  case True
  assume "consistent st"
  then show ?thesis using True
    by (auto simp: consistent_nth detect_length detect_nth invalidate_def)
next
  case False
  assume "consistent st"
  then show ?thesis using False by (simp add: detect_beyond)
qed

lemma hash_phase_consistent: "consistent st \<Longrightarrow> consistent (hash_phase quick n th st)"
  by (induction n) (simp_all add: hash_phase_0 hash_phase_Suc detect_consistent)

lemma hash_phase_dirty_not_broken:
  "consistent st \<Longrightarrow> k < length st \<Longrightarrow> Dirty (hash_phase quick n th st ! k) \<Longrightarrow>
   \<not> Broken (hash_phase quick n th st ! k)"
  using hash_phase_consistent[of st quick n th] by (simp add: consistent_nth hash_phase_length)

lemma tick_consistent: "consistent st \<Longrightarrow> consistent (statuses (tick quick n e st))"
  using hash_phase_consistent[of st quick n "seenHash e"]
  by (simp add: consistent_nth tick_length tick_nth hash_phase_length)

lemma compile_all_result:
  "compile_all w n cerr is st called = Compiled st' c \<Longrightarrow> st' = st \<or> (\<exists>i. st' = mark_broken i n st)"
  by (induction "is" arbitrary: called) (auto split: option.splits if_splits)

lemma first_pass_consistent:
  assumes "compile_all w n cerr is (replicate n zeroStatus) called = Compiled st' c"
  shows "consistent (init_hashes n th st')"
proof -
  have "\<forall>k < length st'. \<not> Dirty (st' ! k)"
    using compile_all_result[OF assms]
    by (auto simp: mark_broken_nth mark_broken_length zeroStatus_def split: if_splits)
  then show ?thesis
    by (simp add: consistent_nth init_hashes_length init_hashes_nth)
qed

lemma watch_loop_consistent:
  "consistent st \<Longrightarrow> consistent (fst (snd (watch_loop quick rn n es st)))"
proof (induction es arbitrary: st)
  case Nil
  then show ?case by simp
next
  case (Cons e es)
  have "consistent (statuses (tick quick n e st))" using Cons.prems by (rule tick_consistent)
  then show ?case using Cons.IH[of "statuses (tick quick n e st)"]
    by (auto simp: Let_def split: prod.splits)
qed

lemma ex_tick1:
  "tick False 3 \<lparr>seenHash = (\<lambda>i. if i = 0 then ''b'' else ''a''),
                  compileErr = (\<lambda>i. if i = 0 then Some ''boom'' else None)\<rparr>
     [clean ''a'', clean ''a'', clean ''a''] =
   \<lparr>statuses = [\<lparr>TreeHash = ''b'', Dirty = False, Broken = False\<rparr>,
                \<lparr>TreeHash = ''a'', Dirty = True, Broken = False\<rparr>,
                \<lparr>TreeHash = ''a'', Dirty = True, Broken = False\<rparr>],
      invoked = [0], shouldRestart = False\<rparr>"
  by (simp add: tick_def hash_phase_def detect_def cascade_def invalidate_def Let_def upt3 clean_def)

section \<open>The tree hasher: fuel\<close>

lemma fuel_mono:
  "directoryHash L fs n level p w = Some d \<Longrightarrow> directoryHash L fs (n + k) level p w = Some d"
  "writeChildren L fs n level p w names h = Some x \<Longrightarrow>
     writeChildren L fs (n + k) level p w names h = Some x"
proof (induction L fs n level p w and L fs n level p w names h
       arbitrary: d and x rule: directoryHash_writeChildren.induct)
  case (1 L fs level filePath w)
  then show ?case by simp
next
  case (2 L fs fuel level filePath w)
  show ?case
  proof (cases "Stat fs filePath")
    case None
    then show ?thesis using "2.prems" by simp
  next
    case (Some isDir)
    show ?thesis
    proof (cases isDir)
      case False
      then show ?thesis using "2.prems" Some by simp
    next
      case True
      show ?thesis
      proof (cases "excluded level (Base filePath)")
        case skip: True
        then show ?thesis using "2.prems" Some True by simp
      next
        case noskip: False
        show ?thesis
        proof (cases "Readdirnames fs filePath")
          case None
          then show ?thesis using "2.prems" Some True noskip by simp
        next
          case names: (Some names)
          obtain y where y: "writeChildren L fs fuel level filePath w names filePath = Some y"
            and d: "d = sha1_Sum L y"
            using "2.prems" Some True noskip names by auto
          have "writeChildren L fs (fuel + k) level filePath w names filePath = Some y"
            using "2.IH"[OF Some True noskip names y] .
          then show ?thesis using Some True noskip names d by simp
        qed
      qed
    qed
  qed
next
  case (3 L fs fuel level filePath w h)
  then show ?case by simp
next
  case (4 L fs fuel level filePath w name names h)
  show ?case
  proof (cases "name = [] \<or> hd name = CHR ''.''")
    case True
    have "writeChildren L fs fuel level filePath w names h = Some x"
      using "4.prems" True by simp
    then have "writeChildren L fs (fuel + k) level filePath w names h = Some x"
      using "4.IH"(1)[OF True] by blast
    then show ?thesis using True by simp
  next
    case False
    obtain dg where dg: "directoryHash L fs fuel (level + 1) (path_Join L filePath name) w = Some dg"
      and rest: "writeChildren L fs fuel level filePath w names (h @ dg) = Some x"
      using "4.prems" False by (auto split: option.splits)
    have a: "directoryHash L fs (fuel + k) (level + 1) (path_Join L filePath name) w = Some dg"
      using "4.IH"(2)[OF False dg] .
    have b: "writeChildren L fs (fuel + k) level filePath w names (h @ dg) = Some x"
      using "4.IH"(3)[OF False dg rest] .
    show ?thesis using False a b by simp
  qed
qed

lemma writeRoots_mono:
  "writeRoots L fs n w ds h = Some x \<Longrightarrow> writeRoots L fs (n + k) w ds h = Some x"
proof (induction ds arbitrary: h)
  case Nil
  then show ?case by simp
next
  case (Cons d ds)
  then obtain y where y: "directoryHash L fs n 0 d w = Some y"
    and r: "writeRoots L fs n w ds (h @ y) = Some x"
    by (auto split: option.splits)
  show ?case using fuel_mono(1)[OF y, of k] Cons.IH[OF r] by simp
qed

lemma sourceTreeHash_mono:
  "sourceTreeHash L fs n w = Some d \<Longrightarrow> n \<le> m \<Longrightarrow> sourceTreeHash L fs m w = Some d"
proof -
  assume a: "sourceTreeHash L fs n w = Some d" and le: "n \<le> m"
  then obtain h where h: "writeRoots L fs n w (Paths w) [] = Some h"
    and d: "d = EncodeToString (sha1_Sum L h)"
    by (auto simp: sourceTreeHash_def)
  have "writeRoots L fs (n + (m - n)) w (Paths w) [] = Some h" using h by (rule writeRoots_mono)
  then show ?thesis using le d by (simp add: sourceTreeHash_def)
qed

section \<open>The tree hasher: the filter\<close>

lemma scanChunk_star_go: "scanChunk ''*.go'' = (True, ''.go'', [])"
  by (simp add: scanChunk_def)

lemma matchChunk_go:
  "matchChunk ''.go'' s False = Inr (if take 3 s = ''.go'' then Some (drop 3 s) else None)"
proof (cases s)
  case Nil
  then show ?thesis by (simp add: matchChunk.simps Let_def)
next
  case c1: (Cons a s1)
  show ?thesis
  proof (cases s1)
    case Nil
    then show ?thesis using c1 by (simp add: matchChunk.simps Let_def)
  next
    case c2: (Cons b s2)
    show ?thesis
    proof (cases s2)
      case Nil
      then show ?thesis using c1 c2 by (simp add: matchChunk.simps Let_def)
    next
      case c3: (Cons c s3)
      then show ?thesis using c1 c2 by (simp add: matchChunk.simps Let_def)
    qed
  qed
qed

lemma take3_drop3: "take 3 cs = ''.go'' \<Longrightarrow> drop 3 cs = [] \<Longrightarrow> cs = ''.go''"
  using append_take_drop_id[of 3 cs] by simp

lemma starLoop_go:
  "starLoop ''.go'' True name = Inr (Some t) \<Longrightarrow>
   \<exists>pre. name = pre @ ''.go'' \<and> CHR ''/'' \<notin> set pre"
proof (induction name)
  case Nil
  then show ?case by simp
next
  case (Cons c cs)
  have nosep: "c \<noteq> CHR ''/''" using Cons.prems by (auto split: if_splits)
  show ?case
  proof (cases "take 3 cs = ''.go'' \<and> drop 3 cs = []")
    case True
    then have "cs = ''.go''" using take3_drop3 by blast
    then have "c # cs = [c] @ ''.go'' \<and> CHR ''/'' \<notin> set [c]" using nosep by simp
    then show ?thesis by blast
  next
    case False
    then have "starLoop ''.go'' True cs = Inr (Some t)"
      using Cons.prems nosep by (auto simp: matchChunk_go split: if_splits)
    then obtain pre where "cs = pre @ ''.go''" "CHR ''/'' \<notin> set pre"
      using Cons.IH by blast
    then have "c # cs = (c # pre) @ ''.go'' \<and> CHR ''/'' \<notin> set (c # pre)"
      using nosep by simp
    then show ?thesis by blast
  qed
qed

lemma Match_empty: "Match [] name = Inr (name = [])"
  by (simp add: Match.simps)

lemma Match_go_sound:
  assumes "Match ''*.go'' name = Inr True"
  shows "\<exists>pre. name = pre @ ''.go'' \<and> CHR ''/'' \<notin> set pre"
proof (cases "take 3 name = ''.go'' \<and> drop 3 name = []")
  case True
  then have "name = [] @ ''.go''" using take3_drop3[of name] by simp
  then show ?thesis by (metis empty_iff empty_set)
next
  case False
  have "(case starLoop ''.go'' True name of
           Inl e \<Rightarrow> Inl e
         | Inr (Some t) \<Rightarrow> Match [] t
         | Inr None \<Rightarrow> Inr False) = Inr True"
    using assms False
    by (subst (asm) Match.simps) (auto simp: scanChunk_star_go matchChunk_go split: if_splits)
  then obtain t where "starLoop ''.go'' True name = Inr (Some t)"
    by (auto split: sum.splits option.splits)
  then show ?thesis by (rule starLoop_go)
qed

lemma Match_go_main: "Match ''*.go'' ''main.go'' = Inr True"
  by (subst Match.simps) (simp add: scanChunk_star_go matchChunk_go Match_empty)

lemma Base_noslash: "CHR ''/'' \<notin> set p \<Longrightarrow> p \<noteq> [] \<Longrightarrow> Base p = p"
proof -
  assume ns: "CHR ''/'' \<notin> set p" and ne: "p \<noteq> []"
  have 1: "dropWhile (\<lambda>c. c = CHR ''/'') (rev p) = rev p"
    using ns ne by (cases "rev p") auto
  have 2: "takeWhile (\<lambda>c. c \<noteq> CHR ''/'') (rev p) = rev p"
    using ns by (auto simp: takeWhile_eq_all_conv)
  show ?thesis using ne by (simp add: Base_def 1 2 Let_def)
qed

lemma Match_go_txt:
  assumes "Base filePath = ''main.txt''"
  shows "Match ''*.go'' filePath \<noteq> Inr True" and "Match ''*.go'' (Base filePath) \<noteq> Inr True"
proof -
  show "Match ''*.go'' filePath \<noteq> Inr True"
  proof
    assume "Match ''*.go'' filePath = Inr True"
    then obtain pre where pre: "filePath = pre @ ''.go''" "CHR ''/'' \<notin> set pre"
      using Match_go_sound by blast
    then have "Base filePath = filePath" by (intro Base_noslash) auto
    then have "pre @ ''.go'' = ''main.txt''" using assms pre by simp
    then have "last (pre @ ''.go'') = last ''main.txt''" by simp
    then show False by simp
  qed
  show "Match ''*.go'' (Base filePath) \<noteq> Inr True"
  proof
    assume "Match ''*.go'' (Base filePath) = Inr True"
    then obtain pre where "''main.txt'' = pre @ ''.go''"
      using Match_go_sound assms by metis
    then have "last ''main.txt'' = last (pre @ ''.go'')" by simp
    then show False by simp
  qed
qed

lemma Base_demo:
  "Base ''src/pkg/main.go'' = ''main.go''" "Base ''src/main.txt'' = ''main.txt''"
  "Base ''src'' = ''src''" "Base ''src/pkg'' = ''pkg''" "Base ''src/doc'' = ''doc''"
  by (simp_all add: Base_def)

lemma demo_txt:
  "Match ''*.go'' ''src/main.txt'' \<noteq> Inr True" "Match ''*.go'' ''main.txt'' \<noteq> Inr True"
  using Match_go_txt[of "''src/main.txt''"] by (simp_all add: Base_demo)

lemma demo_digest:
  "writeRoots demoLib demoFS 3 demoWatch [''src''] [] = Some ''<src<src/pkg<src/pkg/main.gopackage pkg>>>''"
  by (simp add: numeral_3_eq_3 demoLib_def demoFS_def demoWatch_def Base_demo excluded_def
      filteredOut_def Match_go_main demo_txt)

section \<open>The tree hasher: determinism\<close>

lemma directoryHash_agree:
  "(\<And>l q. (descends L fs)\<^sup>*\<^sup>* (level, p) (l, q) \<Longrightarrow> agree fs fs' q) \<Longrightarrow>
   directoryHash L fs' n level p w = directoryHash L fs n level p w"
proof (induction n arbitrary: level p)
  case 0
  show ?case by simp
next
  case (Suc n)
  have here: "agree fs fs' p" using Suc.prems by blast
  show ?case
  proof (cases "Stat fs p = Some True \<and> \<not> excluded level (Base p) \<and> Readdirnames fs p \<noteq> None")
    case False
    then show ?thesis using here
      by (auto simp: agree_def split: option.splits)
  next
    case True
    then obtain names where names: "Readdirnames fs p = Some names" by auto
    have kids: "writeChildren L fs' n level p w ns h = writeChildren L fs n level p w ns h"
      if "set ns \<subseteq> set names" for ns h
      using that
    proof (induction ns arbitrary: h)
      case Nil
      show ?case by simp
    next
      case (Cons name ns)
      show ?case
      proof (cases "name = [] \<or> hd name = CHR ''.''")
        case hidden: True
        then show ?thesis using Cons by simp
      next
        case shown: False
        have step: "descends L fs (level, p) (level + 1, path_Join L p name)"
          using True names Cons.prems shown by (intro descends.child) auto
        have "directoryHash L fs' n (level + 1) (path_Join L p name) w =
              directoryHash L fs n (level + 1) (path_Join L p name) w"
        proof (rule Suc.IH)
          fix l q
          assume "(descends L fs)\<^sup>*\<^sup>* (level + 1, path_Join L p name) (l, q)"
          then have "(descends L fs)\<^sup>*\<^sup>* (level, p) (l, q)"
            using step by (simp add: converse_rtranclp_into_rtranclp)
          then show "agree fs fs' q" by (rule Suc.prems)
        qed
        then show ?thesis using shown Cons by (simp split: option.splits)
      qed
    qed
    show ?thesis using True names here kids[of names p]
      by (simp add: agree_def)
  qed
qed

lemma writeRoots_agree:
  "(\<And>q. q \<in> visited L fs w \<Longrightarrow> agree fs fs' q) \<Longrightarrow> set ds \<subseteq> set (Paths w) \<Longrightarrow>
   writeRoots L fs' n w ds h = writeRoots L fs n w ds h"
proof (induction ds arbitrary: h)
  case Nil
  show ?case by simp
next
  case (Cons d ds)
  have "directoryHash L fs' n 0 d w = directoryHash L fs n 0 d w"
  proof (rule directoryHash_agree)
    fix l q
    assume "(descends L fs)\<^sup>*\<^sup>* (0, d) (l, q)"
    then have "q \<in> visited L fs w" using Cons.prems(2) by (auto simp: visited_def)
    then show "agree fs fs' q" by (rule Cons.prems(1))
  qed
  then show ?case using Cons by (simp split: option.splits)
qed

lemma directoryHash_returns:
  "(\<And>l q. (descends L fs)\<^sup>*\<^sup>* (level, p) (l, q) \<Longrightarrow> l < N) \<Longrightarrow>
   \<exists>d. directoryHash L fs (N - level) level p w = Some d"
proof (induction "N - level" arbitrary: level p)
  case 0
  have "level < N" using "0.prems"[of level p] by simp
  then show ?case using 0 by simp
next
  case (Suc k)
  have fuel: "N - level = Suc k" using Suc by simp
  show ?case
  proof (cases "Stat fs p = Some True \<and> \<not> excluded level (Base p) \<and> Readdirnames fs p \<noteq> None")
    case False
    then show ?thesis unfolding fuel
      by (auto split: option.splits)
  next
    case True
    then obtain names where names: "Readdirnames fs p = Some names" by auto
    have kids: "\<exists>x. writeChildren L fs k level p w ns h = Some x"
      if "set ns \<subseteq> set names" for ns h
      using that
    proof (induction ns arbitrary: h)
      case Nil
      show ?case by simp
    next
      case (Cons name ns)
      show ?case
      proof (cases "name = [] \<or> hd name = CHR ''.''")
        case hidden: True
        then show ?thesis using Cons by simp
      next
        case shown: False
        have step: "descends L fs (level, p) (level + 1, path_Join L p name)"
          using True names Cons.prems shown by (intro descends.child) auto
        have k: "k = N - (level + 1)" using fuel by simp
        have "\<exists>d. directoryHash L fs (N - (level + 1)) (level + 1) (path_Join L p name) w = Some d"
        proof (rule Suc.hyps(1)[OF k])
          fix l q
          assume "(descends L fs)\<^sup>*\<^sup>* (level + 1, path_Join L p name) (l, q)"
          then have "(descends L fs)\<^sup>*\<^sup>* (level, p) (l, q)"
            using step by (simp add: converse_rtranclp_into_rtranclp)
          then show "l < N" by (rule Suc.prems)
        qed
        then obtain d where "directoryHash L fs k (level + 1) (path_Join L p name) w = Some d"
          using k by auto
        then show ?thesis using shown Cons by simp
      qed
    qed
    obtain x where "writeChildren L fs k level p w names p = Some x"
      using kids[of names p] by auto
    then show ?thesis unfolding fuel using True names by simp
  qed
qed

lemma writeRoots_returns:
  "(\<And>root l q. root \<in> set ds \<Longrightarrow> (descends L fs)\<^sup>*\<^sup>* (0, root) (l, q) \<Longrightarrow> l < N) \<Longrightarrow>
   \<exists>x. writeRoots L fs N w ds h = Some x"
proof (induction ds arbitrary: h)
  case Nil
  show ?case by simp
next
  case (Cons d ds)
  have "\<exists>y. directoryHash L fs (N - 0) 0 d w = Some y"
    by (rule directoryHash_returns) (use Cons.prems in auto)
  then obtain y where "directoryHash L fs N 0 d w = Some y" by auto
  moreover have "\<exists>x. writeRoots L fs N w ds (h @ y) = Some x"
    by (rule Cons.IH) (use Cons.prems in auto)
  ultimately show ?case by auto
qed

lemma demo_digest2:
  "writeRoots demoLib demoFS2 3 demoWatch [''src''] [] = Some ''<src<src/pkg<src/pkg/main.gopackage pkg>>>''"
  by (simp add: numeral_3_eq_3 demoLib_def demoFS2_def demoFS_def demoWatch_def Base_demo excluded_def
      filteredOut_def Match_go_main demo_txt)

lemma demo_descends:
  assumes "descends demoLib demoFS (l, q) (l', q')"
    and "(l, q) \<in> {(0, ''src''), (1, ''src/main.txt''), (1, ''src/pkg''), (1, ''src/doc''), (2, ''src/pkg/main.go'')}"
  shows "(l', q') \<in> {(0, ''src''), (1, ''src/main.txt''), (1, ''src/pkg''), (1, ''src/doc''), (2, ''src/pkg/main.go'')}"
  using assms(1)
proof (cases rule: descends.cases)
  case (child names name)
  consider "q = ''src''" "l = 0" | "q = ''src/pkg''" "l = 1" | "q = ''src/doc''" "l = 1"
    using assms(2) child(3) by (auto simp: demoFS_def)
  then show ?thesis
  proof cases
    case 1
    then show ?thesis using child by (auto simp: demoFS_def demoLib_def)
  next
    case 2
    then show ?thesis using child by (auto simp: demoFS_def demoLib_def)
  next
    case 3
    then show ?thesis using child by (simp add: excluded_def Base_demo)
  qed
qed

lemma demo_reach:
  "(descends demoLib demoFS)\<^sup>*\<^sup>* (0, ''src'') (l, q) \<Longrightarrow>
   (l, q) \<in> {(0, ''src''), (1, ''src/main.txt''), (1, ''src/pkg''), (1, ''src/doc''), (2, ''src/pkg/main.go'')}"
proof (induction "(0::nat, ''src'')" "(l, q)" arbitrary: l q rule: rtranclp.induct)
  case rtrancl_refl
  show ?case by simp
next
  case (rtrancl_into_rtrancl b)
  obtain l0 q0 where b: "b = (l0, q0)" by (cases b)
  have in_S: "(l0, q0) \<in> {(0, ''src''), (1, ''src/main.txt''), (1, ''src/pkg''), (1, ''src/doc''), (2, ''src/pkg/main.go'')}"
    using rtrancl_into_rtrancl(2)[OF b] .
  have "descends demoLib demoFS (l0, q0) (l, q)" using rtrancl_into_rtrancl(3) b by simp
  then show ?case using in_S by (rule demo_descends)
qed

lemma demo_visited:
  "visited demoLib demoFS demoWatch \<subseteq>
     {''src'', ''src/main.txt'', ''src/pkg'', ''src/doc'', ''src/pkg/main.go''}"
proof
  fix q assume "q \<in> visited demoLib demoFS demoWatch"
  then obtain l where "(descends demoLib demoFS)\<^sup>*\<^sup>* (0, ''src'') (l, q)"
    by (auto simp: visited_def demoWatch_def)
  then have "(l, q) \<in> {(0, ''src''), (1, ''src/main.txt''), (1, ''src/pkg''), (1, ''src/doc''), (2, ''src/pkg/main.go'')}"
    by (rule demo_reach)
  then show "q \<in> {''src'', ''src/main.txt'', ''src/pkg'', ''src/doc'', ''src/pkg/main.go''}"
    by auto
qed

lemma demo_depth:
  "\<forall>root \<in> set (Paths demoWatch). \<forall>l q. (descends demoLib demoFS)\<^sup>*\<^sup>* (0, root) (l, q) \<longrightarrow> l < 3"
proof (intro ballI allI impI)
  fix root l q
  assume "root \<in> set (Paths demoWatch)" and r: "(descends demoLib demoFS)\<^sup>*\<^sup>* (0, root) (l, q)"
  then have "root = ''src''" by (simp add: demoWatch_def)
  then have "(l, q) \<in> {(0, ''src''), (1, ''src/main.txt''), (1, ''src/pkg''), (1, ''src/doc''), (2, ''src/pkg/main.go'')}"
    using r demo_reach by simp
  then show "l < 3" by auto
qed

lemma demo_hash:
  "sourceTreeHash demoLib demoFS 3 demoWatch =
     Some (EncodeToString ''<<src<src/pkg<src/pkg/main.gopackage pkg>>>>'')"
  "sourceTreeHash demoLib demoFS2 3 demoWatch =
     Some (EncodeToString ''<<src<src/pkg<src/pkg/main.gopackage pkg>>>>'')"
proof -
  have p: "Paths demoWatch = [''src'']" by (simp add: demoWatch_def)
  show "sourceTreeHash demoLib demoFS 3 demoWatch =
     Some (EncodeToString ''<<src<src/pkg<src/pkg/main.gopackage pkg>>>>'')"
    unfolding sourceTreeHash_def p demo_digest by (simp add: demoLib_def)
  show "sourceTreeHash demoLib demoFS2 3 demoWatch =
     Some (EncodeToString ''<<src<src/pkg<src/pkg/main.gopackage pkg>>>>'')"
    unfolding sourceTreeHash_def p demo_digest2 by (simp add: demoLib_def)
qed

subsection \<open>The hexadecimal encoding is injective\<close>

lemma hexdigit_inj: "i < 16 \<Longrightarrow> j < 16 \<Longrightarrow> hexdigit i = hexdigit j \<Longrightarrow> i = j"
proof -
  assume i: "i < 16" and j: "j < 16" and e: "hexdigit i = hexdigit j"
  have d: "distinct ''0123456789abcdef''" by simp
  have l: "length ''0123456789abcdef'' = 16" by simp
  show "i = j" using nth_eq_iff_index_eq[OF d, of i j] i j e unfolding hexdigit_def l by simp
qed

lemma hex_byte_inj:
  "hexdigit (of_char c div 16) = hexdigit (of_char c' div 16) \<Longrightarrow>
   hexdigit (of_char c mod 16) = hexdigit (of_char c' mod 16) \<Longrightarrow> c = c'"
proof -
  assume hi: "hexdigit (of_char c div 16) = hexdigit (of_char c' div 16)"
    and lo: "hexdigit (of_char c mod 16) = hexdigit (of_char c' mod 16)"
  have b: "(of_char c :: nat) < 256" "(of_char c' :: nat) < 256" by simp_all
  have d: "n div 16 < 16" if "n < 256" for n :: nat
    using that by (simp add: less_mult_imp_div_less)
  have 1: "(of_char c :: nat) div 16 = of_char c' div 16"
    using hi d[OF b(1)] d[OF b(2)] by (intro hexdigit_inj)
  have 2: "(of_char c :: nat) mod 16 = of_char c' mod 16"
    using lo by (intro hexdigit_inj) auto
  have "(of_char c :: nat) = of_char c'"
    using 1 2 by (metis div_mult_mod_eq)
  then show "c = c'" by simp
qed

lemma EncodeToString_inj: "EncodeToString xs = EncodeToString ys \<Longrightarrow> xs = ys"
proof (induction xs arbitrary: ys)
  case Nil
  then show ?case by (cases ys) (simp_all add: EncodeToString_def)
next
  case (Cons c xs)
  then obtain c' ys' where ys: "ys = c' # ys'" by (cases ys) (auto simp: EncodeToString_def)
  have "c = c'" using Cons.prems ys by (auto simp: EncodeToString_def intro: hex_byte_inj)
  moreover have "xs = ys'" using Cons.prems ys by (intro Cons.IH) (simp add: EncodeToString_def)
  ultimately show ?case using ys by simp
qed

subsection \<open>One directory in two listing orders\<close>

lemma listed_digest:
  "writeRoots demoLib listedAB 2 plainWatch [''src''] [] = Some ''<src<src/a.goA><src/b.goB>>''"
  "writeRoots demoLib listedBA 2 plainWatch [''src''] [] = Some ''<src<src/b.goB><src/a.goA>>''"
  "writeRoots demoLib notOpened 1 plainWatch [''src''] [] = Some ''<src>''"
  by (simp_all add: numeral_2_eq_2 demoLib_def listedAB_def listedBA_def notOpened_def plainWatch_def
      excluded_def filteredOut_def)

lemma listed_hash:
  "sourceTreeHash demoLib listedAB (2 + k) plainWatch =
     Some (EncodeToString ''<<src<src/a.goA><src/b.goB>>>'')"
  "sourceTreeHash demoLib listedBA (2 + k) plainWatch =
     Some (EncodeToString ''<<src<src/b.goB><src/a.goA>>>'')"
  "sourceTreeHash demoLib notOpened (1 + k) plainWatch = Some (EncodeToString ''<<src>>'')"
proof -
  have p: "Paths plainWatch = [''src'']" by (simp add: plainWatch_def)
  have s: "sha1_Sum demoLib h = ''<'' @ h @ ''>''" for h by (simp add: demoLib_def)
  show "sourceTreeHash demoLib listedAB (2 + k) plainWatch =
     Some (EncodeToString ''<<src<src/a.goA><src/b.goB>>>'')"
    unfolding sourceTreeHash_def p writeRoots_mono[OF listed_digest(1)] by (simp add: s)
  show "sourceTreeHash demoLib listedBA (2 + k) plainWatch =
     Some (EncodeToString ''<<src<src/b.goB><src/a.goA>>>'')"
    unfolding sourceTreeHash_def p writeRoots_mono[OF listed_digest(2)] by (simp add: s)
  show "sourceTreeHash demoLib notOpened (1 + k) plainWatch = Some (EncodeToString ''<<src>>'')"
    unfolding sourceTreeHash_def p writeRoots_mono[OF listed_digest(3)] by (simp add: s)
qed

section \<open>The tree hasher: what reaches the digest\<close>

subsection \<open>The digest of a file that is reached is hashed into the digest of the watch list\<close>









subsection \<open>Changes that the digest does not see\<close>



subsection \<open>Other bytes in a file that is hashed give another digest\<close>











subsection \<open>The presence of a file that the filter leaves out\<close>



subsection \<open>The filter \<open>*.go\<close>\<close>












section \<open>The claims\<close>

text \<open>
  C1. The claim: a tick signals a restart if and only if the last step's recompilation
  succeeded in that tick. The loop sets \<open>shouldRestart\<close> before it calls the callback
  (\<open>tick_restart\<close>: the flag is set exactly when the last step's callback was called), so a
  tick in which the last step's callback returns an error signals a restart all the same.
  On one step whose digest changed and whose callback fails: the callback is called, fails,
  and the restart is signalled.
\<close>

theorem restart_after_failed_last_step:
  "compileErr \<lparr>seenHash = (\<lambda>i. ''b''), compileErr = (\<lambda>i. Some ''exit status 1'')\<rparr> 0 = Some ''exit status 1'' \<and>
   invoked (tick False 1 \<lparr>seenHash = (\<lambda>i. ''b''), compileErr = (\<lambda>i. Some ''exit status 1'')\<rparr>
              [\<lparr>TreeHash = ''a'', Dirty = False, Broken = False\<rparr>]) = [0] \<and>
   shouldRestart (tick False 1 \<lparr>seenHash = (\<lambda>i. ''b''), compileErr = (\<lambda>i. Some ''exit status 1'')\<rparr>
              [\<lparr>TreeHash = ''a'', Dirty = False, Broken = False\<rparr>]) = True \<and>
   snd (snd (Run \<lparr>conf = \<lparr>Development = False, Quick = False, Version = [], GOOS = [], GOARCH = []\<rparr>,
                   watch = True, run = True\<rparr> 1
               \<lparr>firstErr = (\<lambda>i. None), firstHash = (\<lambda>i. ''a''),
                  polls = [\<lparr>seenHash = (\<lambda>i. ''b''), compileErr = (\<lambda>i. Some ''exit status 1'')\<rparr>],
                  exitErr = None\<rparr>)) = [Compile 0, Poll, Compile 0, Restart]"
  by (simp add: Run_def tick_def hash_phase_def detect_def cascade_def invalidate_def Let_def
      init_hashes_def zeroStatus_def)

text \<open>
  C2. The claim: after the recompilation phase a step's Broken flag is set exactly when its most
  recent compile attempt failed. On one step whose digest changed: a successful callback leaves
  the step Broken, a failing callback leaves it not Broken.
\<close>

theorem broken_flag_inverted:
  "statuses (tick False 1 \<lparr>seenHash = (\<lambda>i. ''b''), compileErr = (\<lambda>i. None)\<rparr>
              [\<lparr>TreeHash = ''a'', Dirty = False, Broken = False\<rparr>]) =
     [\<lparr>TreeHash = ''b'', Dirty = False, Broken = True\<rparr>] \<and>
   statuses (tick False 1 \<lparr>seenHash = (\<lambda>i. ''b''), compileErr = (\<lambda>i. Some ''exit status 1'')\<rparr>
              [\<lparr>TreeHash = ''a'', Dirty = False, Broken = False\<rparr>]) =
     [\<lparr>TreeHash = ''b'', Dirty = False, Broken = False\<rparr>]"
  by (simp add: tick_def hash_phase_def detect_def cascade_def invalidate_def Let_def)

text \<open>
  C3. Without the quick flag, on three steps: when only step 0's fresh digest differs from its
  recorded \<open>TreeHash\<close>, the hashing loop leaves steps 0, 1 and 2 all Dirty; when only step 2's
  digest differs, it marks step 2 Dirty and leaves the entries of steps 0 and 1 as they were.
\<close>

theorem nonquick_cascade:
  assumes "length st = 3"
  shows "(seen 0 \<noteq> TreeHash (st ! 0) \<and> seen 1 = TreeHash (st ! 1) \<and> seen 2 = TreeHash (st ! 2) \<longrightarrow>
            Dirty (hash_phase False 3 seen st ! 0) \<and>
            Dirty (hash_phase False 3 seen st ! 1) \<and>
            Dirty (hash_phase False 3 seen st ! 2)) \<and>
         (seen 0 = TreeHash (st ! 0) \<and> seen 1 = TreeHash (st ! 1) \<and> seen 2 \<noteq> TreeHash (st ! 2) \<longrightarrow>
            Dirty (hash_phase False 3 seen st ! 2) \<and>
            hash_phase False 3 seen st ! 0 = st ! 0 \<and>
            hash_phase False 3 seen st ! 1 = st ! 1)"
proof -
  obtain a b c where st: "st = [a, b, c]" using assms length3 by blast
  show ?thesis
    unfolding st hash_phase_def upt3
    by (simp add: detect_def cascade_def invalidate_def Let_def upt3)
qed

theorem nonquick_cascade_witness:
  "length [\<lparr>TreeHash = ''a'', Dirty = False, Broken = False\<rparr>,
           \<lparr>TreeHash = ''a'', Dirty = False, Broken = False\<rparr>,
           \<lparr>TreeHash = ''a'', Dirty = False, Broken = False\<rparr>] = 3 \<and>
   Dirty (hash_phase False 3 (\<lambda>i. if i = 0 then ''b'' else ''a'')
            [\<lparr>TreeHash = ''a'', Dirty = False, Broken = False\<rparr>,
             \<lparr>TreeHash = ''a'', Dirty = False, Broken = False\<rparr>,
             \<lparr>TreeHash = ''a'', Dirty = False, Broken = False\<rparr>] ! 1) \<and>
   Dirty (hash_phase False 3 (\<lambda>i. if i = 0 then ''b'' else ''a'')
            [\<lparr>TreeHash = ''a'', Dirty = False, Broken = False\<rparr>,
             \<lparr>TreeHash = ''a'', Dirty = False, Broken = False\<rparr>,
             \<lparr>TreeHash = ''a'', Dirty = False, Broken = False\<rparr>] ! 2) \<and>
   hash_phase False 3 (\<lambda>i. if i = 2 then ''b'' else ''a'')
            [\<lparr>TreeHash = ''a'', Dirty = False, Broken = False\<rparr>,
             \<lparr>TreeHash = ''a'', Dirty = False, Broken = False\<rparr>,
             \<lparr>TreeHash = ''a'', Dirty = False, Broken = False\<rparr>] ! 1 =
     \<lparr>TreeHash = ''a'', Dirty = False, Broken = False\<rparr>"
  using
    nonquick_cascade [of "[\<lparr>TreeHash = ''a'', Dirty = False, Broken = False\<rparr>,
             \<lparr>TreeHash = ''a'', Dirty = False, Broken = False\<rparr>,
             \<lparr>TreeHash = ''a'', Dirty = False, Broken = False\<rparr>]" "\<lambda>i. if i = 0 then ''b'' else ''a''"]
    nonquick_cascade [of "[\<lparr>TreeHash = ''a'', Dirty = False, Broken = False\<rparr>,
             \<lparr>TreeHash = ''a'', Dirty = False, Broken = False\<rparr>,
             \<lparr>TreeHash = ''a'', Dirty = False, Broken = False\<rparr>]" "\<lambda>i. if i = 2 then ''b'' else ''a''"]
  by simp

text \<open>
  C4. With the quick flag, on three steps, when only step 0's fresh digest differs: step 0 is
  marked Dirty (its Broken flag cleared, its digest recorded); a later step whose Broken flag
  was set is marked Dirty and has the flag cleared; a later step whose Broken flag was clear is
  left as it was.
\<close>

theorem quick_cascade:
  assumes "length st = 3"
    and "seen 0 \<noteq> TreeHash (st ! 0)" and "seen 1 = TreeHash (st ! 1)" and "seen 2 = TreeHash (st ! 2)"
  shows "hash_phase True 3 seen st ! 0 = (st ! 0)\<lparr>TreeHash := seen 0, Dirty := True, Broken := False\<rparr> \<and>
         hash_phase True 3 seen st ! 1 =
           (if Broken (st ! 1) then (st ! 1)\<lparr>Dirty := True, Broken := False\<rparr> else st ! 1) \<and>
         hash_phase True 3 seen st ! 2 =
           (if Broken (st ! 2) then (st ! 2)\<lparr>Dirty := True, Broken := False\<rparr> else st ! 2)"
proof -
  obtain a b c where st: "st = [a, b, c]" using assms length3 by blast
  show ?thesis using assms(2-)
    unfolding st hash_phase_def upt3
    by (simp add: detect_def cascade_def invalidate_def Let_def upt3)
qed

theorem quick_cascade_witness:
  "hash_phase True 3 (\<lambda>i. if i = 0 then ''b'' else ''a'')
     [\<lparr>TreeHash = ''a'', Dirty = False, Broken = False\<rparr>,
      \<lparr>TreeHash = ''a'', Dirty = False, Broken = True\<rparr>,
      \<lparr>TreeHash = ''a'', Dirty = False, Broken = False\<rparr>] ! 1 =
     \<lparr>TreeHash = ''a'', Dirty = True, Broken = False\<rparr> \<and>
   hash_phase True 3 (\<lambda>i. if i = 0 then ''b'' else ''a'')
     [\<lparr>TreeHash = ''a'', Dirty = False, Broken = False\<rparr>,
      \<lparr>TreeHash = ''a'', Dirty = False, Broken = True\<rparr>,
      \<lparr>TreeHash = ''a'', Dirty = False, Broken = False\<rparr>] ! 2 =
     \<lparr>TreeHash = ''a'', Dirty = False, Broken = False\<rparr>"
  using quick_cascade [of "[\<lparr>TreeHash = ''a'', Dirty = False, Broken = False\<rparr>,
      \<lparr>TreeHash = ''a'', Dirty = False, Broken = True\<rparr>,
      \<lparr>TreeHash = ''a'', Dirty = False, Broken = False\<rparr>]" "\<lambda>i. if i = 0 then ''b'' else ''a''"]
  by simp

text \<open>
  C5. Under \<open>-watch\<close>, when step \<open>i\<close> is the first whose callback fails in the first pass: the
  callbacks called in that pass are those of steps \<open>0..i\<close> and no later one, exactly the steps
  from \<open>i\<close> on are marked Broken, \<open>Run\<close> does not end in \<open>log.Fatalf\<close>, and its events continue
  with those of the watch loop started on that status slice. The witness is the two-step
  pipeline whose step 0 fails: both steps are Broken and the loop polls.
\<close>

theorem watch_first_pass_failure:
  assumes "watch fl" and "i < n" and "firstErr env i = Some err"
    and "\<And>k. k < i \<Longrightarrow> firstErr env k = None"
  shows "compile_all (watch fl) n (firstErr env) [0..<n] (replicate n zeroStatus) [] =
           Compiled (mark_broken i n (replicate n zeroStatus)) [0..<Suc i] \<and>
         (\<forall>j<n. Broken (mark_broken i n (replicate n zeroStatus) ! j) = (i \<le> j)) \<and>
         (\<forall>e. fst (Run fl n env) \<noteq> CompileFatal e) \<and>
         snd (snd (Run fl n env)) =
           map Compile [0..<Suc i] @
           snd (snd (watch_loop (Quick (conf fl)) (run fl) n (polls env)
                       (init_hashes n (firstHash env) (mark_broken i n (replicate n zeroStatus)))))"
proof -
  have pass: "compile_all (watch fl) n (firstErr env) [0..<n] (replicate n zeroStatus) [] =
           Compiled (mark_broken i n (replicate n zeroStatus)) [0..<Suc i]"
    using compile_all_failure[of 0 i n "firstErr env" err "replicate n zeroStatus" "[]"] assms
    by simp
  have flags: "\<forall>j<n. Broken (mark_broken i n (replicate n zeroStatus) ! j) = (i \<le> j)"
    by (simp add: mark_broken_nth zeroStatus_def)
  obtain fin st' tr where loop:
    "watch_loop (Quick (conf fl)) (run fl) n (polls env)
       (init_hashes n (firstHash env) (mark_broken i n (replicate n zeroStatus))) = (fin, st', tr)"
    by (cases "watch_loop (Quick (conf fl)) (run fl) n (polls env)
       (init_hashes n (firstHash env) (mark_broken i n (replicate n zeroStatus)))") auto
  have nofatal: "\<forall>e. fst (Run fl n env) \<noteq> CompileFatal e"
    using pass loop assms(1) by (cases fin) (auto simp: Run_def split: option.splits)
  have events: "snd (snd (Run fl n env)) = map Compile [0..<Suc i] @ tr"
    using pass loop assms(1) by (cases fin) (auto simp: Run_def)
  show ?thesis using pass flags nofatal events loop by simp
qed

theorem watch_first_pass_failure_witness:
  "compile_all True 2 (\<lambda>i. if i = 0 then Some ''boom'' else None) [0..<2] (replicate 2 zeroStatus) [] =
     Compiled [\<lparr>TreeHash = [], Dirty = False, Broken = True\<rparr>,
               \<lparr>TreeHash = [], Dirty = False, Broken = True\<rparr>] [0] \<and>
   Run \<lparr>conf = \<lparr>Development = False, Quick = False, Version = [], GOOS = [], GOARCH = []\<rparr>,
         watch = True, run = False\<rparr> 2
       \<lparr>firstErr = (\<lambda>i. if i = 0 then Some ''boom'' else None), firstHash = (\<lambda>i. ''h''),
          polls = [\<lparr>seenHash = (\<lambda>i. ''h''), compileErr = (\<lambda>i. None)\<rparr>], exitErr = None\<rparr> =
     (Returned,
      [\<lparr>TreeHash = ''h'', Dirty = False, Broken = True\<rparr>,
       \<lparr>TreeHash = ''h'', Dirty = False, Broken = True\<rparr>],
      [Compile 0, Poll])"
proof -
  let ?fl = "\<lparr>conf = \<lparr>Development = False, Quick = False, Version = [], GOOS = [], GOARCH = []\<rparr>,
         watch = True, run = False\<rparr>"
  let ?env = "\<lparr>firstErr = (\<lambda>i. if i = 0 then Some ''boom'' else None), firstHash = (\<lambda>i. ''h''),
          polls = [\<lparr>seenHash = (\<lambda>i. ''h''), compileErr = (\<lambda>i. None)\<rparr>], exitErr = None\<rparr>"
  have mb: "mark_broken 0 2 (replicate 2 zeroStatus) =
      [\<lparr>TreeHash = [], Dirty = False, Broken = True\<rparr>, \<lparr>TreeHash = [], Dirty = False, Broken = True\<rparr>]"
    by (simp add: mark_broken_def zeroStatus_def numeral_2_eq_2)
  have w: "watch ?fl" by simp
  have i: "(0::nat) < 2" by simp
  have f: "firstErr ?env 0 = Some ''boom''" by simp
  have p: "\<And>k. k < (0::nat) \<Longrightarrow> firstErr ?env k = None" by simp
  note t = watch_first_pass_failure[OF w i f p]
  have pass: "compile_all True 2 (\<lambda>i. if i = 0 then Some ''boom'' else None) [0..<2] (replicate 2 zeroStatus) [] =
     Compiled [\<lparr>TreeHash = [], Dirty = False, Broken = True\<rparr>,
               \<lparr>TreeHash = [], Dirty = False, Broken = True\<rparr>] [0]"
    using t mb by simp
  have run: "Run ?fl 2 ?env = (Returned,
      [\<lparr>TreeHash = ''h'', Dirty = False, Broken = True\<rparr>,
       \<lparr>TreeHash = ''h'', Dirty = False, Broken = True\<rparr>],
      [Compile 0, Poll])"
    using pass
    by (simp add: Run_def init_hashes_def tick_def hash_phase_def detect_def numeral_2_eq_2 Let_def)
  show ?thesis using pass run by simp
qed

text \<open>
  C6, as amended. When the callback of step \<open>i\<close> is called in a tick and returns an error:
  no callback of a later step is called in that tick; the entry of every later step is what the
  hashing loop left, so a later Dirty step stays Dirty; and on the next tick, when no digest
  differs from the recorded one, such a step \<open>j\<close> is recompiled provided the callbacks of the
  Dirty steps between \<open>i\<close> and \<open>j\<close> succeed on that tick.
\<close>

theorem failed_step_stops_tick:
  assumes "length st = n" and "i \<in> set (invoked (tick quick n e st))" and "compileErr e i = Some err"
  shows "(\<forall>j \<in> set (invoked (tick quick n e st)). j \<le> i) \<and>
         (\<forall>j. i < j \<and> j < n \<longrightarrow>
              statuses (tick quick n e st) ! j = hash_phase quick n (seenHash e) st ! j) \<and>
         (\<forall>e2 j. i < j \<and> j < n \<and> Dirty (hash_phase quick n (seenHash e) st ! j) \<and>
                 (\<forall>k<n. seenHash e2 k = TreeHash (statuses (tick quick n e st) ! k)) \<and>
                 (\<forall>k. i < k \<and> k < j \<and> Dirty (hash_phase quick n (seenHash e) st ! k)
                        \<longrightarrow> compileErr e2 k = None)
               \<longrightarrow> j \<in> set (invoked (tick quick n e2 (statuses (tick quick n e st)))))"
proof -
  let ?r = "tick quick n e st"
  let ?H = "hash_phase quick n (seenHash e) st"
  have stop: "\<forall>j \<in> set (invoked ?r). j \<le> i"
    using attempts_stop[OF sorted_dirty_steps, of i "compileErr e" ?H n err] assms(2,3)
    by (auto simp: tick_invoked)
  have keep: "\<forall>j. i < j \<and> j < n \<longrightarrow> statuses ?r ! j = ?H ! j"
    using stop assms(1) by (auto simp: tick_nth)
  have retry: "j \<in> set (invoked (tick quick n e2 (statuses ?r)))"
    if j: "i < j" "j < n" "Dirty (?H ! j)"
      and same: "\<forall>k<n. seenHash e2 k = TreeHash (statuses ?r ! k)"
      and ok: "\<forall>k. i < k \<and> k < j \<and> Dirty (?H ! k) \<longrightarrow> compileErr e2 k = None"
    for e2 j
  proof -
    have H2: "hash_phase quick n (seenHash e2) (statuses ?r) = statuses ?r"
      using same by (intro hash_phase_unchanged) simp
    have jd: "j \<in> set (dirty_steps (statuses ?r) [0..<n])"
      using j keep by (simp add: set_dirty_steps)
    have before: "compileErr e2 k = None"
      if "k \<in> set (dirty_steps (statuses ?r) [0..<n])" "k < j" for k
    proof (cases "k \<le> i")
      case True
      then have "\<not> Dirty (statuses ?r ! k)" using tick_clean_upto[OF assms(1,2)] by simp
      then show ?thesis using that by (simp add: set_dirty_steps)
    next
      case False
      then have "statuses ?r ! k = ?H ! k" using keep that j by simp
      then show ?thesis using that ok False by (simp add: set_dirty_steps)
    qed
    show ?thesis
      using attempts_reached[OF jd sorted_dirty_steps, of "compileErr e2"] before
      by (simp add: tick_invoked H2)
  qed
  show ?thesis using stop keep retry by blast
qed

theorem failed_step_stops_tick_witness:
  "invoked (tick False 3 \<lparr>seenHash = (\<lambda>i. if i = 0 then ''b'' else ''a''),
                  compileErr = (\<lambda>i. if i = 0 then Some ''boom'' else None)\<rparr>
     [clean ''a'', clean ''a'', clean ''a'']) = [0] \<and>
   Dirty (statuses (tick False 3 \<lparr>seenHash = (\<lambda>i. if i = 0 then ''b'' else ''a''),
                  compileErr = (\<lambda>i. if i = 0 then Some ''boom'' else None)\<rparr>
     [clean ''a'', clean ''a'', clean ''a'']) ! 2) \<and>
   2 \<in> set (invoked (tick False 3 \<lparr>seenHash = (\<lambda>i. if i = 0 then ''b'' else ''a''), compileErr = (\<lambda>i. None)\<rparr>
     (statuses (tick False 3 \<lparr>seenHash = (\<lambda>i. if i = 0 then ''b'' else ''a''),
                  compileErr = (\<lambda>i. if i = 0 then Some ''boom'' else None)\<rparr>
     [clean ''a'', clean ''a'', clean ''a'']))))"
proof -
  let ?e = "\<lparr>seenHash = (\<lambda>i. if i = 0 then ''b'' else ''a''),
                  compileErr = (\<lambda>i. if i = (0::nat) then Some ''boom'' else None)\<rparr>"
  let ?e2 = "\<lparr>seenHash = (\<lambda>i. if i = (0::nat) then ''b'' else ''a''), compileErr = (\<lambda>i::nat. None :: error)\<rparr>"
  let ?st = "[clean ''a'', clean ''a'', clean ''a'']"
  have l: "length ?st = 3" by simp
  have i: "0 \<in> set (invoked (tick False 3 ?e ?st))" by (simp add: ex_tick1)
  have c: "compileErr ?e 0 = Some ''boom''" by simp
  have H: "hash_phase False 3 (\<lambda>i. if i = 0 then ''b'' else ''a'') ?st =
      [\<lparr>TreeHash = ''b'', Dirty = True, Broken = False\<rparr>,
       \<lparr>TreeHash = ''a'', Dirty = True, Broken = False\<rparr>,
       \<lparr>TreeHash = ''a'', Dirty = True, Broken = False\<rparr>]"
    by (simp add: hash_phase_def detect_def cascade_def invalidate_def Let_def upt3 clean_def)
  note t = failed_step_stops_tick[OF l i c]
  then have "\<forall>e2 j. 0 < j \<and> j < 3 \<and> Dirty (hash_phase False 3 (seenHash ?e) ?st ! j) \<and>
                 (\<forall>k<3. seenHash e2 k = TreeHash (statuses (tick False 3 ?e ?st) ! k)) \<and>
                 (\<forall>k. 0 < k \<and> k < j \<and> Dirty (hash_phase False 3 (seenHash ?e) ?st ! k)
                        \<longrightarrow> compileErr e2 k = None)
               \<longrightarrow> j \<in> set (invoked (tick False 3 e2 (statuses (tick False 3 ?e ?st))))"
    by blast
  then have "0 < (2::nat) \<and> (2::nat) < 3 \<and> Dirty (hash_phase False 3 (seenHash ?e) ?st ! 2) \<and>
                 (\<forall>k<3. seenHash ?e2 k = TreeHash (statuses (tick False 3 ?e ?st) ! k)) \<and>
                 (\<forall>k. 0 < k \<and> k < 2 \<and> Dirty (hash_phase False 3 (seenHash ?e) ?st ! k)
                        \<longrightarrow> compileErr ?e2 k = None)
               \<longrightarrow> 2 \<in> set (invoked (tick False 3 ?e2 (statuses (tick False 3 ?e ?st))))"
    by blast
  moreover have "\<forall>k<3. seenHash ?e2 k = TreeHash (statuses (tick False 3 ?e ?st) ! k)"
    unfolding ex_tick1 by (simp add: less_Suc_eq numeral_3_eq_3)
  moreover have "Dirty (hash_phase False 3 (seenHash ?e) ?st ! 2)"
    by (simp add: H)
  ultimately have "2 \<in> set (invoked (tick False 3 ?e2 (statuses (tick False 3 ?e ?st))))"
    by simp
  then show ?thesis by (simp add: ex_tick1)
qed

text \<open>
  C6 as stated fails: every later Dirty step would be recompiled on the next tick. Three steps,
  step 0's digest changes and its callback fails, so steps 1 and 2 stay Dirty; on the next tick
  nothing changed, step 1's callback fails, and step 2's callback is not called.
\<close>

theorem later_dirty_step_not_retried:
  "compileErr \<lparr>seenHash = (\<lambda>i. if i = 0 then ''b'' else ''a''),
               compileErr = (\<lambda>i. if i = 0 then Some ''boom'' else None)\<rparr> 0 = Some ''boom'' \<and>
   tick False 3 \<lparr>seenHash = (\<lambda>i. if i = 0 then ''b'' else ''a''),
                  compileErr = (\<lambda>i. if i = 0 then Some ''boom'' else None)\<rparr>
     [clean ''a'', clean ''a'', clean ''a''] =
   \<lparr>statuses = [\<lparr>TreeHash = ''b'', Dirty = False, Broken = False\<rparr>,
                \<lparr>TreeHash = ''a'', Dirty = True, Broken = False\<rparr>,
                \<lparr>TreeHash = ''a'', Dirty = True, Broken = False\<rparr>],
      invoked = [0], shouldRestart = False\<rparr> \<and>
   tick False 3 \<lparr>seenHash = (\<lambda>i. if i = 0 then ''b'' else ''a''),
                  compileErr = (\<lambda>i. if i = 1 then Some ''boom'' else None)\<rparr>
     [\<lparr>TreeHash = ''b'', Dirty = False, Broken = False\<rparr>,
      \<lparr>TreeHash = ''a'', Dirty = True, Broken = False\<rparr>,
      \<lparr>TreeHash = ''a'', Dirty = True, Broken = False\<rparr>] =
   \<lparr>statuses = [\<lparr>TreeHash = ''b'', Dirty = False, Broken = False\<rparr>,
                \<lparr>TreeHash = ''a'', Dirty = False, Broken = False\<rparr>,
                \<lparr>TreeHash = ''a'', Dirty = True, Broken = False\<rparr>],
      invoked = [1], shouldRestart = False\<rparr>"
  by (simp add: tick_def hash_phase_def detect_def cascade_def invalidate_def Let_def upt3 clean_def)

text \<open>
  C7. When the callback of step \<open>i\<close> is called in a tick and returns an error, the tick leaves
  the step not Dirty and its Broken flag as the hashing loop left it (clear, when no entry was
  Dirty and Broken at once before the tick); and over any further iterations of the watch loop
  in which the digests of steps \<open>0..i\<close> stay the recorded ones, the callback of step \<open>i\<close> is
  never called.
\<close>

theorem failed_step_not_retried:
  assumes "length st = n" and "i \<in> set (invoked (tick quick n e st))" and "compileErr e i = Some err"
  shows "\<not> Dirty (statuses (tick quick n e st) ! i) \<and>
         Broken (statuses (tick quick n e st) ! i) = Broken (hash_phase quick n (seenHash e) st ! i) \<and>
         (consistent st \<longrightarrow> \<not> Broken (statuses (tick quick n e st) ! i)) \<and>
         (\<forall>rn es. (\<forall>e' \<in> set es. \<forall>k \<le> i. seenHash e' k = TreeHash (statuses (tick quick n e st) ! k)) \<longrightarrow>
               Compile i \<notin> set (snd (snd (watch_loop quick rn n es (statuses (tick quick n e st))))))"
proof -
  let ?r = "tick quick n e st"
  have i: "i < n" "Dirty (hash_phase quick n (seenHash e) st ! i)"
    using tick_invoked_dirty[OF assms(2)] by simp_all
  have d: "\<not> Dirty (statuses ?r ! i)"
    using tick_clean_upto[OF assms(1,2), of i] by simp
  have b: "Broken (statuses ?r ! i) = Broken (hash_phase quick n (seenHash e) st ! i)"
    using assms i by (simp add: tick_nth)
  have c: "consistent st \<longrightarrow> \<not> Broken (statuses ?r ! i)"
    using b i assms(1) hash_phase_dirty_not_broken[of st i quick n "seenHash e"] by auto
  have q: "Compile i \<notin> set (snd (snd (watch_loop quick rn n es (statuses ?r))))"
    if "\<forall>e' \<in> set es. \<forall>k \<le> i. seenHash e' k = TreeHash (statuses ?r ! k)" for rn es
    using watch_loop_quiet[of "statuses ?r" n i es quick rn] that d i assms(1)
    by (simp add: tick_length)
  show ?thesis using d b c q by blast
qed

theorem failed_step_not_retried_witness:
  "\<not> Dirty (statuses (tick False 3 \<lparr>seenHash = (\<lambda>i. if i = 0 then ''b'' else ''a''),
                  compileErr = (\<lambda>i. if i = 0 then Some ''boom'' else None)\<rparr>
              [clean ''a'', clean ''a'', clean ''a'']) ! 0) \<and>
   \<not> Broken (statuses (tick False 3 \<lparr>seenHash = (\<lambda>i. if i = 0 then ''b'' else ''a''),
                  compileErr = (\<lambda>i. if i = 0 then Some ''boom'' else None)\<rparr>
              [clean ''a'', clean ''a'', clean ''a'']) ! 0) \<and>
   Compile 0 \<notin> set (snd (snd (watch_loop False True 3
       [\<lparr>seenHash = (\<lambda>i. if i = 0 then ''b'' else ''a''), compileErr = (\<lambda>i. None)\<rparr>,
        \<lparr>seenHash = (\<lambda>i. if i = 0 then ''b'' else ''c''), compileErr = (\<lambda>i. None)\<rparr>]
       (statuses (tick False 3 \<lparr>seenHash = (\<lambda>i. if i = 0 then ''b'' else ''a''),
                  compileErr = (\<lambda>i. if i = 0 then Some ''boom'' else None)\<rparr>
              [clean ''a'', clean ''a'', clean ''a'']))))) \<and>
   snd (snd (watch_loop False True 3
       [\<lparr>seenHash = (\<lambda>i. if i = 0 then ''b'' else ''a''), compileErr = (\<lambda>i. None)\<rparr>,
        \<lparr>seenHash = (\<lambda>i. if i = 0 then ''b'' else ''c''), compileErr = (\<lambda>i. None)\<rparr>]
       (statuses (tick False 3 \<lparr>seenHash = (\<lambda>i. if i = 0 then ''b'' else ''a''),
                  compileErr = (\<lambda>i. if i = 0 then Some ''boom'' else None)\<rparr>
              [clean ''a'', clean ''a'', clean ''a''])))) =
     [Poll, Compile 1, Compile 2, Restart, Poll, Compile 1, Compile 2, Restart]"
proof -
  let ?e = "\<lparr>seenHash = (\<lambda>i. if i = 0 then ''b'' else ''a''),
                  compileErr = (\<lambda>i. if i = (0::nat) then Some ''boom'' else None)\<rparr>"
  let ?es = "[\<lparr>seenHash = (\<lambda>i. if i = (0::nat) then ''b'' else ''a''), compileErr = (\<lambda>i::nat. None :: error)\<rparr>,
        \<lparr>seenHash = (\<lambda>i. if i = (0::nat) then ''b'' else ''c''), compileErr = (\<lambda>i::nat. None :: error)\<rparr>]"
  let ?st = "[clean ''a'', clean ''a'', clean ''a'']"
  have l: "length ?st = 3" by simp
  have i: "0 \<in> set (invoked (tick False 3 ?e ?st))" by (simp add: ex_tick1)
  have c: "compileErr ?e 0 = Some ''boom''" by simp
  have k: "consistent ?st" by (simp add: consistent_def clean_def)
  note t = failed_step_not_retried[OF l i c]
  have same: "\<forall>e' \<in> set ?es. \<forall>k \<le> 0. seenHash e' k = TreeHash (statuses (tick False 3 ?e ?st) ! k)"
    unfolding ex_tick1 by simp
  have 1: "\<not> Dirty (statuses (tick False 3 ?e ?st) ! 0)" using t by blast
  have 2: "\<not> Broken (statuses (tick False 3 ?e ?st) ! 0)" using t k by blast
  have 3: "Compile 0 \<notin> set (snd (snd (watch_loop False True 3 ?es (statuses (tick False 3 ?e ?st)))))"
    using t same by blast
  have 4: "snd (snd (watch_loop False True 3 ?es (statuses (tick False 3 ?e ?st)))) =
     [Poll, Compile 1, Compile 2, Restart, Poll, Compile 1, Compile 2, Restart]"
    unfolding ex_tick1
    by (simp add: tick_def hash_phase_def detect_def cascade_def invalidate_def Let_def upt3)
  show ?thesis using 1 2 3 4 by simp
qed

text \<open>
  C8. When every callback called in a tick succeeds, no step is Dirty after it; and a second
  tick that sees the same digests calls no callback, signals no restart and leaves the status
  slice as it was.
\<close>

theorem tick_idempotent:
  assumes "length st = n"
    and "\<forall>i \<in> set (invoked (tick quick n e1 st)). compileErr e1 i = None"
    and "\<forall>i<n. seenHash e2 i = seenHash e1 i"
  shows "(\<forall>i<n. \<not> Dirty (statuses (tick quick n e1 st) ! i)) \<and>
         invoked (tick quick n e2 (statuses (tick quick n e1 st))) = [] \<and>
         \<not> shouldRestart (tick quick n e2 (statuses (tick quick n e1 st))) \<and>
         statuses (tick quick n e2 (statuses (tick quick n e1 st))) = statuses (tick quick n e1 st)"
proof -
  let ?r = "tick quick n e1 st"
  let ?H = "hash_phase quick n (seenHash e1) st"
  have all: "invoked ?r = dirty_steps ?H [0..<n]"
    using attempts_all_ok[of "compileErr e1" "dirty_steps ?H [0..<n]"] assms(2)
    by (simp add: tick_invoked)
  have nodirty: "\<forall>i<n. \<not> Dirty (statuses ?r ! i)"
    using assms(1) by (simp add: tick_Dirty all set_dirty_steps)
  have "\<forall>k<n. seenHash e2 k = TreeHash (statuses ?r ! k)"
    using assms(1,3) by (simp add: tick_TreeHash hash_phase_TreeHash)
  then have H2: "hash_phase quick n (seenHash e2) (statuses ?r) = statuses ?r"
    by (intro hash_phase_unchanged) simp
  have "dirty_steps (statuses ?r) [0..<n] = []"
    using nodirty by (simp add: dirty_steps_def)
  then have inv2: "invoked (tick quick n e2 (statuses ?r)) = []"
    by (simp add: tick_invoked H2)
  have r2: "\<not> shouldRestart (tick quick n e2 (statuses ?r))"
    using inv2 by (simp add: tick_restart)
  have st2: "statuses (tick quick n e2 (statuses ?r)) = statuses ?r"
    by (rule nth_equalityI) (simp_all add: tick_length tick_nth inv2 H2)
  show ?thesis using nodirty inv2 r2 st2 by simp
qed

theorem tick_idempotent_witness:
  "invoked (tick False 3 \<lparr>seenHash = (\<lambda>i. if i = 0 then ''b'' else ''a''), compileErr = (\<lambda>i. None)\<rparr>
              [clean ''a'', clean ''a'', clean ''a'']) = [0, 1, 2] \<and>
   invoked (tick False 3 \<lparr>seenHash = (\<lambda>i. if i = 0 then ''b'' else ''a''), compileErr = (\<lambda>i. Some ''boom'')\<rparr>
     (statuses (tick False 3 \<lparr>seenHash = (\<lambda>i. if i = 0 then ''b'' else ''a''), compileErr = (\<lambda>i. None)\<rparr>
              [clean ''a'', clean ''a'', clean ''a'']))) = []"
proof -
  let ?e1 = "\<lparr>seenHash = (\<lambda>i. if i = (0::nat) then ''b'' else ''a''), compileErr = (\<lambda>i::nat. None :: error)\<rparr>"
  let ?e2 = "\<lparr>seenHash = (\<lambda>i. if i = (0::nat) then ''b'' else ''a''), compileErr = (\<lambda>i::nat. Some ''boom'')\<rparr>"
  let ?st = "[clean ''a'', clean ''a'', clean ''a'']"
  have l: "length ?st = 3" by simp
  have ok: "\<forall>i \<in> set (invoked (tick False 3 ?e1 ?st)). compileErr ?e1 i = None" by simp
  have same: "\<forall>i<3. seenHash ?e2 i = seenHash ?e1 i" by simp
  have first: "invoked (tick False 3 ?e1 ?st) = [0, 1, 2]"
    by (simp add: tick_def hash_phase_def detect_def cascade_def invalidate_def Let_def upt3 clean_def)
  show ?thesis using tick_idempotent[OF l ok same] first by simp
qed

text \<open>
  C9, as amended. When two filesystems answer the system calls alike at every path that the
  hasher visits from the roots of the watch list (\<open>os.Stat\<close>: the same kind or a failure in
  both; \<open>os.Open\<close> and \<open>Readdirnames\<close> on a directory: the same names in the same order
  or a failure in both; \<open>os.Open\<close> and the read of a file: the same bytes or a failure in
  both): two evaluations of \<open>sourceTreeHash\<close> that return, each on one of them and with
  whatever fuel, return the same digest; and when the visited tree is less than \<open>N\<close> levels
  deep, the evaluations on both return one and the same digest for every fuel from \<open>N\<close> on.
  \<open>sourceTreeHash\<close> reads nothing but the watch list and these answers, so the same holds
  from one call to the next and from one process to the next.
\<close>

theorem tree_hash_deterministic:
  assumes "\<forall>q \<in> visited L fs w. Stat fs' q = Stat fs q \<and> Readdirnames fs' q = Readdirnames fs q \<and>
                                  ReadFile fs' q = ReadFile fs q"
  shows "(sourceTreeHash L fs n w = Some d \<and> sourceTreeHash L fs' m w = Some d' \<longrightarrow> d = d') \<and>
         ((\<forall>root \<in> set (Paths w). \<forall>l q. (descends L fs)\<^sup>*\<^sup>* (0, root) (l, q) \<longrightarrow> l < N) \<longrightarrow>
          (\<exists>x. \<forall>k \<ge> N. sourceTreeHash L fs k w = Some x \<and> sourceTreeHash L fs' k w = Some x))"
proof (intro conjI impI)
  have same: "sourceTreeHash L fs' k w = sourceTreeHash L fs k w" for k
    using assms writeRoots_agree[of L fs w fs' "Paths w" k "[]"]
    by (simp add: sourceTreeHash_def agree_def)
  {
    assume r: "sourceTreeHash L fs n w = Some d \<and> sourceTreeHash L fs' m w = Some d'"
    have "sourceTreeHash L fs n w = Some d" using r by simp
    then have 1: "sourceTreeHash L fs (max n m) w = Some d"
      by (rule sourceTreeHash_mono) simp
    have "sourceTreeHash L fs m w = Some d'" using r same by simp
    then have 2: "sourceTreeHash L fs (max n m) w = Some d'" by (rule sourceTreeHash_mono) simp
    show "d = d'" using 1 2 by simp
  }
  {
    assume b: "\<forall>root \<in> set (Paths w). \<forall>l q. (descends L fs)\<^sup>*\<^sup>* (0, root) (l, q) \<longrightarrow> l < N"
    have "\<exists>x. writeRoots L fs N w (Paths w) [] = Some x"
      by (rule writeRoots_returns) (use b in blast)
    then obtain x where x: "sourceTreeHash L fs N w = Some x"
      by (auto simp: sourceTreeHash_def)
    have "sourceTreeHash L fs k w = Some x \<and> sourceTreeHash L fs' k w = Some x" if "N \<le> k" for k
      using sourceTreeHash_mono[OF x that] same by simp
    then show "\<exists>x. \<forall>k \<ge> N. sourceTreeHash L fs k w = Some x \<and> sourceTreeHash L fs' k w = Some x"
      by blast
  }
qed

text \<open>
  The witness of C9: \<open>demoFS\<close> and \<open>demoFS2\<close> differ at a path that is not visited.
\<close>

theorem tree_hash_deterministic_witness:
  "ReadFile demoFS2 ''src/doc/main.go'' \<noteq> ReadFile demoFS ''src/doc/main.go'' \<and>
   sourceTreeHash demoLib demoFS 3 demoWatch =
     Some (EncodeToString ''<<src<src/pkg<src/pkg/main.gopackage pkg>>>>'') \<and>
   sourceTreeHash demoLib demoFS2 7 demoWatch =
     Some (EncodeToString ''<<src<src/pkg<src/pkg/main.gopackage pkg>>>>'')"
proof -
  have agree: "\<forall>q \<in> visited demoLib demoFS demoWatch.
      Stat demoFS2 q = Stat demoFS q \<and> Readdirnames demoFS2 q = Readdirnames demoFS q \<and>
      ReadFile demoFS2 q = ReadFile demoFS q"
  proof
    fix q assume "q \<in> visited demoLib demoFS demoWatch"
    then have "q \<noteq> ''src/doc/main.go''" using demo_visited by auto
    then show "Stat demoFS2 q = Stat demoFS q \<and> Readdirnames demoFS2 q = Readdirnames demoFS q \<and>
      ReadFile demoFS2 q = ReadFile demoFS q"
      by (simp add: demoFS2_def)
  qed
  note t = tree_hash_deterministic[OF agree, where N = 3]
  from t have "(\<forall>root \<in> set (Paths demoWatch). \<forall>l q.
                   (descends demoLib demoFS)\<^sup>*\<^sup>* (0, root) (l, q) \<longrightarrow> l < 3) \<longrightarrow>
               (\<exists>x. \<forall>k \<ge> 3. sourceTreeHash demoLib demoFS k demoWatch = Some x \<and>
                        sourceTreeHash demoLib demoFS2 k demoWatch = Some x)"
    by (rule conjunct2)
  then have "\<exists>x. \<forall>k \<ge> 3. sourceTreeHash demoLib demoFS k demoWatch = Some x \<and>
                        sourceTreeHash demoLib demoFS2 k demoWatch = Some x"
    using demo_depth by (rule mp)
  then obtain x where x: "\<And>k. 3 \<le> k \<Longrightarrow> sourceTreeHash demoLib demoFS k demoWatch = Some x \<and>
                        sourceTreeHash demoLib demoFS2 k demoWatch = Some x"
    by blast
  have "x = EncodeToString ''<<src<src/pkg<src/pkg/main.gopackage pkg>>>>''"
    using x[of 3] demo_hash(1) by simp
  then have seven: "sourceTreeHash demoLib demoFS2 7 demoWatch =
     Some (EncodeToString ''<<src<src/pkg<src/pkg/main.gopackage pkg>>>>'')"
    using x[of 7] by simp
  have differ: "ReadFile demoFS2 ''src/doc/main.go'' \<noteq> ReadFile demoFS ''src/doc/main.go''"
    by (simp add: demoFS2_def demoFS_def)
  show ?thesis using differ demo_hash(1) seven by simp
qed

text \<open>
  C9 as stated fails: the same paths, the same file names and the same file bytes would give
  the same digest. \<open>directoryHash\<close> writes the digests of the entries of a directory to its
  hasher in the order in which \<open>Readdirnames\<close> returns the names, and does not sort them
  (lines 276-284): \<open>listedAB\<close> and \<open>listedBA\<close> have the same kinds, the same bytes and the
  same set of names at every path, and their digests differ. And the digest of a directory
  that cannot be opened is that of its path alone (lines 274-278): \<open>notOpened\<close> is the same
  tree with \<open>os.Open\<close> failing on \<open>src\<close>, and its digest is another one. The descriptor that
  line 274 opens for a directory is not closed by \<open>directoryHash\<close> (the one of a file is, line
  303), so that whether a later \<open>os.Open\<close> succeeds is not a matter of the tree alone.
\<close>

theorem listing_order_changes_digest:
  "Stat listedBA = Stat listedAB \<and> ReadFile listedBA = ReadFile listedAB \<and>
   (\<forall>p. map_option set (Readdirnames listedBA p) = map_option set (Readdirnames listedAB p)) \<and>
   (\<forall>k. sourceTreeHash demoLib listedAB (2 + k) plainWatch =
          Some (EncodeToString ''<<src<src/a.goA><src/b.goB>>>'')) \<and>
   (\<forall>k. sourceTreeHash demoLib listedBA (2 + k) plainWatch =
          Some (EncodeToString ''<<src<src/b.goB><src/a.goA>>>'')) \<and>
   sourceTreeHash demoLib listedBA 2 plainWatch \<noteq> sourceTreeHash demoLib listedAB 2 plainWatch \<and>
   Stat notOpened = Stat listedAB \<and> ReadFile notOpened = ReadFile listedAB \<and>
   (\<forall>k. sourceTreeHash demoLib notOpened (1 + k) plainWatch = Some (EncodeToString ''<<src>>'')) \<and>
   sourceTreeHash demoLib notOpened 2 plainWatch \<noteq> sourceTreeHash demoLib listedAB 2 plainWatch"
proof -
  have names: "map_option set (Readdirnames listedBA p) = map_option set (Readdirnames listedAB p)" for p
    by (auto simp: listedBA_def listedAB_def)
  have ab: "sourceTreeHash demoLib listedAB 2 plainWatch =
      Some (EncodeToString ''<<src<src/a.goA><src/b.goB>>>'')"
    using listed_hash(1)[of 0] by simp
  have ba: "sourceTreeHash demoLib listedBA 2 plainWatch =
      Some (EncodeToString ''<<src<src/b.goB><src/a.goA>>>'')"
    using listed_hash(2)[of 0] by simp
  have no: "sourceTreeHash demoLib notOpened 2 plainWatch = Some (EncodeToString ''<<src>>'')"
    using listed_hash(3)[of 1] by (simp add: numeral_2_eq_2)
  have d1: "sourceTreeHash demoLib listedBA 2 plainWatch \<noteq> sourceTreeHash demoLib listedAB 2 plainWatch"
    unfolding ab ba using EncodeToString_inj[of "''<<src<src/b.goB><src/a.goA>>>''" "''<<src<src/a.goA><src/b.goB>>>''"]
    by auto
  have d2: "sourceTreeHash demoLib notOpened 2 plainWatch \<noteq> sourceTreeHash demoLib listedAB 2 plainWatch"
    unfolding ab no using EncodeToString_inj[of "''<<src>>''" "''<<src<src/a.goA><src/b.goB>>>''"]
    by auto
  show ?thesis
    using names listed_hash d1 d2 by (simp add: listedBA_def notOpened_def)
qed




end
